theory Spec2Isabelle
  imports Complex_Main "HOL-Library.Log_Nat"
begin

section \<open>Data model of the deposit scanner\<close>

text \<open>
  The tables that \<^verbatim>\<open>src/lib/depositScanner.ts\<close> reads and writes through Prisma.
  Identifiers generated by the store are natural numbers drawn from a counter.
  A Prisma \<^verbatim>\<open>Decimal\<close> is the rational number it denotes; a block number
  (\<^verbatim>\<open>bigint\<close>) is an \<^typ>\<open>int\<close>.
\<close>

datatype tx_status = PENDING | CONFIRMING | CONFIRMED | CREDITED | REORGED

datatype intent_status = INTENT_PENDING | INTENT_DETECTED | INTENT_CREDITED | INTENT_EXPIRED

datatype ledger_type = DEPOSIT | PURCHASE | REFUND | ADJUSTMENT

record user =
  user_id :: nat
  walletAddress :: string
  creditBalance :: rat

record deposit_intent =
  intent_id :: nat
  intent_userId :: nat
  intent_status :: intent_status
  createdAt :: int

record onchain_tx =
  tx_id :: nat
  txHash :: string
  logIndex :: nat
  fromAddress :: string
  toAddress :: string
  amount :: rat
  blockNumber :: int
  confirmations :: int
  status :: tx_status
  depositIntentId :: "nat option"
  creditedAt :: "int option"

record ledger_tx =
  ledger_userId :: nat
  ledger_type :: ledger_type
  ledger_amount :: rat
  balanceAfter :: rat
  referenceType :: string
  referenceId :: nat
  idempotencyKey :: string

record database =
  onchainTransaction :: "onchain_tx list"
  depositIntent :: "deposit_intent list"
  users :: "user list"
  ledgerTransaction :: "ledger_tx list"
  nextId :: nat

text \<open>
  A Transfer log of the USDT contract, as the node returns it; the value is a
  \<^verbatim>\<open>bigint\<close>.
\<close>

record raw_log =
  log_transactionHash :: string
  log_logIndex :: nat
  log_from :: string
  log_to :: string
  log_value :: int
  log_blockNumber :: int

text \<open>
  \<^verbatim>\<open>DetectedTransfer\<close>. Its \<^verbatim>\<open>amount\<close> is the decimal string that
  \<^verbatim>\<open>formatUnits\<close> prints; the model keeps the rational that the string denotes.
\<close>

record detected_transfer =
  d_txHash :: string
  d_logIndex :: nat
  d_fromAddress :: string
  d_toAddress :: string
  d_amount :: rat
  d_blockNumber :: int

text \<open>
  What a pass reads from outside the store: the configured treasury address
  (\<^verbatim>\<open>NEXT_PUBLIC_DEPOSIT_ADDRESS\<close>, possibly unset), the chain as the node
  reports it during the pass, the clock, and the conversion that the store applies to a
  JavaScript number written into a \<^verbatim>\<open>Decimal\<close> column (fixed by the Prisma
  schema, which is taken as a parameter).
\<close>

record env =
  depositAddress :: "string option"
  height :: int
  chainLogs :: "raw_log list"
  now :: int
  numberToDecimal :: "rat \<Rightarrow> rat"

text \<open>
  The mutable world: the store, and a schedule of transient failures. Every awaited call
  to the node or to the store takes the head of the schedule; \<open>True\<close> makes that call
  throw. An empty schedule means that nothing fails any more.
\<close>

record world =
  db :: database
  faults :: "bool list"

datatype exn = RpcError | DbError | UniqueConstraint | RecordNotFound

type_synonym 'a io = "world \<Rightarrow> (exn + 'a) \<times> world"

definition io_return :: "'a \<Rightarrow> 'a io" where
  "io_return x s = (Inr x, s)"

definition io_bind :: "'a io \<Rightarrow> ('a \<Rightarrow> 'b io) \<Rightarrow> 'b io" where
  "io_bind m f s = (case m s of (Inl e, s') \<Rightarrow> (Inl e, s') | (Inr x, s') \<Rightarrow> f x s')"

text \<open>\<^verbatim>\<open>try { m } catch (error) { h }\<close>: the handler runs in the state the failure left.\<close>

definition io_catch :: "'a io \<Rightarrow> (exn \<Rightarrow> 'a io) \<Rightarrow> 'a io" where
  "io_catch m h s = (case m s of (Inl e, s') \<Rightarrow> h e s' | (Inr x, s') \<Rightarrow> (Inr x, s'))"

definition await_ext :: "exn \<Rightarrow> unit io" where
  "await_ext e s =
     (case faults s of
        [] \<Rightarrow> (Inr (), s)
      | f # fs \<Rightarrow> (if f then Inl e else Inr (), s\<lparr>faults := fs\<rparr>))"

definition prismaRead :: "(database \<Rightarrow> 'a) \<Rightarrow> 'a io" where
  "prismaRead q = io_bind (await_ext DbError) (\<lambda>_ s. (Inr (q (db s)), s))"

definition prismaWrite :: "(database \<Rightarrow> exn + database) \<Rightarrow> unit io" where
  "prismaWrite w =
     io_bind (await_ext DbError)
       (\<lambda>_ s. case w (db s) of Inl e \<Rightarrow> (Inl e, s) | Inr d \<Rightarrow> (Inr (), s\<lparr>db := d\<rparr>))"

text \<open>
  \<^verbatim>\<open>prisma.$transaction([...])\<close>: the writes run in order, then the commit; when any
  of them throws, the store is as it was before the first write.
\<close>

fun batch :: "(database \<Rightarrow> exn + database) list \<Rightarrow> unit io" where
  "batch [] = io_return ()"
| "batch (w # ws) = io_bind (prismaWrite w) (\<lambda>_. batch ws)"

definition transaction :: "(database \<Rightarrow> exn + database) list \<Rightarrow> unit io" where
  "transaction ws s =
     (case io_bind (batch ws) (\<lambda>_. await_ext DbError) s of
        (Inl e, s') \<Rightarrow> (Inl e, s'\<lparr>db := db s\<rparr>)
      | (Inr u, s') \<Rightarrow> (Inr u, s'))"

subsection \<open>Store operations\<close>

definition findUniqueTx :: "nat \<Rightarrow> database \<Rightarrow> onchain_tx option" where
  "findUniqueTx i d = find (\<lambda>t. tx_id t = i) (onchainTransaction d)"

definition findFirstTxByKey :: "string \<Rightarrow> nat \<Rightarrow> database \<Rightarrow> onchain_tx option" where
  "findFirstTxByKey h i d = find (\<lambda>t. txHash t = h \<and> logIndex t = i) (onchainTransaction d)"

definition findUserById :: "nat \<Rightarrow> database \<Rightarrow> user option" where
  "findUserById i d = find (\<lambda>u. user_id u = i) (users d)"

definition findUserByWallet :: "string \<Rightarrow> database \<Rightarrow> user option" where
  "findUserByWallet a d = find (\<lambda>u. walletAddress u = a) (users d)"

definition findIntentById :: "nat \<Rightarrow> database \<Rightarrow> deposit_intent option" where
  "findIntentById i d = find (\<lambda>x. intent_id x = i) (depositIntent d)"

text \<open>\<^verbatim>\<open>include: { depositIntent: { include: { user: true } } }\<close>, read as \<^verbatim>\<open>tx.depositIntent?.user\<close>.\<close>

definition intentUser :: "onchain_tx \<Rightarrow> database \<Rightarrow> user option" where
  "intentUser tx d =
     (case depositIntentId tx of
        None \<Rightarrow> None
      | Some i \<Rightarrow>
         (case findIntentById i d of
            None \<Rightarrow> None
          | Some x \<Rightarrow> findUserById (intent_userId x) d))"

text \<open>
  The newest \<^verbatim>\<open>PENDING\<close> intent whose user has the given wallet address
  (\<^verbatim>\<open>orderBy: { createdAt: 'desc' }\<close>; among equal times the first row).
\<close>

fun newest :: "deposit_intent list \<Rightarrow> deposit_intent option" where
  "newest [] = None"
| "newest (x # xs) =
     (case newest xs of
        None \<Rightarrow> Some x
      | Some y \<Rightarrow> if createdAt x \<ge> createdAt y then Some x else Some y)"

definition findPendingIntent :: "string \<Rightarrow> database \<Rightarrow> deposit_intent option" where
  "findPendingIntent a d =
     newest (filter (\<lambda>x. intent_status x = INTENT_PENDING \<and>
                 (case findUserById (intent_userId x) d of
                    None \<Rightarrow> False
                  | Some u \<Rightarrow> walletAddress u = a))
               (depositIntent d))"

definition findManyPending :: "database \<Rightarrow> onchain_tx list" where
  "findManyPending d =
     filter (\<lambda>t. status t = PENDING \<or> status t = CONFIRMING) (onchainTransaction d)"

text \<open>\<^verbatim>\<open>findFirst({ orderBy: { blockNumber: 'desc' } })\<close>, of which only the block number is read.\<close>

fun latestBlock :: "onchain_tx list \<Rightarrow> int option" where
  "latestBlock [] = None"
| "latestBlock (t # ts) =
     (case latestBlock ts of
        None \<Rightarrow> Some (blockNumber t)
      | Some b \<Rightarrow> Some (max (blockNumber t) b))"

text \<open>
  A new row takes the next identifier of the store; its confirmation count starts at 0 and
  it has no credit time. The insert itself checks nothing: the source looks the natural key
  up with \<^verbatim>\<open>findFirst\<close> before it inserts.
\<close>

definition createOnchainTransaction ::
  "detected_transfer \<Rightarrow> rat \<Rightarrow> nat option \<Rightarrow> database \<Rightarrow> exn + database" where
  "createOnchainTransaction t a i d =
     Inr (d\<lparr>onchainTransaction := onchainTransaction d @
               [\<lparr>tx_id = nextId d, txHash = d_txHash t, logIndex = d_logIndex t,
                 fromAddress = d_fromAddress t, toAddress = d_toAddress t, amount = a,
                 blockNumber = d_blockNumber t, confirmations = 0, status = PENDING,
                 depositIntentId = i, creditedAt = None\<rparr>],
             nextId := Suc (nextId d)\<rparr>)"

definition updateOnchainTransaction ::
  "nat \<Rightarrow> (onchain_tx \<Rightarrow> onchain_tx) \<Rightarrow> database \<Rightarrow> exn + database" where
  "updateOnchainTransaction i f d =
     (if \<exists>t \<in> set (onchainTransaction d). tx_id t = i
      then Inr (d\<lparr>onchainTransaction :=
                   map (\<lambda>t. if tx_id t = i then f t else t) (onchainTransaction d)\<rparr>)
      else Inl RecordNotFound)"

definition updateDepositIntent :: "nat \<Rightarrow> intent_status \<Rightarrow> database \<Rightarrow> exn + database" where
  "updateDepositIntent i st d =
     (if \<exists>x \<in> set (depositIntent d). intent_id x = i
      then Inr (d\<lparr>depositIntent :=
                   map (\<lambda>x. if intent_id x = i then x\<lparr>intent_status := st\<rparr> else x)
                     (depositIntent d)\<rparr>)
      else Inl RecordNotFound)"

definition updateUserBalance :: "nat \<Rightarrow> rat \<Rightarrow> database \<Rightarrow> exn + database" where
  "updateUserBalance i b d =
     (if \<exists>u \<in> set (users d). user_id u = i
      then Inr (d\<lparr>users := map (\<lambda>u. if user_id u = i then u\<lparr>creditBalance := b\<rparr> else u) (users d)\<rparr>)
      else Inl RecordNotFound)"

text \<open>
  Modelled from the spec: the Prisma schema is not among the sources, and with it the
  unique constraint on the ledger's idempotency key (``idempotency key is globally unique;
  attempting to insert a duplicate key must fail without side effects''). The source relies
  on it: \<^verbatim>\<open>// Create ledger entry (will fail on duplicate idempotency key)\<close>.
\<close>

definition createLedgerTransaction :: "ledger_tx \<Rightarrow> database \<Rightarrow> exn + database" where
  "createLedgerTransaction l d =
     (if \<exists>x \<in> set (ledgerTransaction d). idempotencyKey x = idempotencyKey l
      then Inl UniqueConstraint
      else Inr (d\<lparr>ledgerTransaction := ledgerTransaction d @ [l]\<rparr>))"


section \<open>The scanner\<close>

definition USDT_DECIMALS :: nat where
  "USDT_DECIMALS = 6"

definition confirmationThreshold :: int where
  "confirmationThreshold = 12"

subsection \<open>Strings and numbers of the host language\<close>

text \<open>\<^verbatim>\<open>String.prototype.toLowerCase\<close> on the ASCII letters an address is written with.\<close>

definition lowerChar :: "char \<Rightarrow> char" where
  "lowerChar c =
     (let n = (of_char c :: nat) in if 65 \<le> n \<and> n \<le> 90 then char_of (n + 32) else c)"

definition toLowerCase :: "string \<Rightarrow> string" where
  "toLowerCase = map lowerChar"

text \<open>A non-negative integer printed in decimal, as a template literal prints it.\<close>

definition digitChar :: "nat \<Rightarrow> char" where
  "digitChar n = ''0123456789'' ! (n mod 10)"

fun showNat :: "nat \<Rightarrow> string" where
  "showNat n = (if n < 10 then [digitChar n] else showNat (n div 10) @ [digitChar n])"

declare showNat.simps [simp del]

text \<open>
  \<^verbatim>\<open>formatUnits(value, decimals)\<close> prints \<open>value / 10 ^ decimals\<close> exactly; the model
  returns the number printed.
\<close>

definition formatUnits :: "int \<Rightarrow> nat \<Rightarrow> rat" where
  "formatUnits v decimals = of_int v / 10 ^ decimals"

text \<open>
  \<^verbatim>\<open>parseFloat\<close> returns the IEEE 754 binary64 number nearest to the decimal it
  reads, ties to the even significand. A binary64 number is modelled by its exact value.
  The amounts read here lie far inside the normal range
  (\<open>10 ^ 71\<close> at most, \<open>10 ^ - 6\<close> at least when not zero).
\<close>

definition pow2 :: "int \<Rightarrow> rat" where
  "pow2 e = (if 0 \<le> e then 2 ^ nat e else 1 / 2 ^ nat (- e))"

text \<open>For \<open>0 < q\<close>, the exponent \<open>e\<close> with \<open>2 ^ e \<le> q < 2 ^ (e + 1)\<close>.\<close>

definition binade :: "rat \<Rightarrow> int" where
  "binade q =
     (let (a, b) = quotient_of q;
          e0 = bitlen a - bitlen b
      in if pow2 e0 \<le> q then e0 else e0 - 1)"

definition roundHalfEven :: "rat \<Rightarrow> int" where
  "roundHalfEven x =
     (let f = \<lfloor>x\<rfloor>; r = x - of_int f
      in if r < 1 / 2 then f else if 1 / 2 < r then f + 1 else if even f then f else f + 1)"

definition roundBinary64 :: "rat \<Rightarrow> rat" where
  "roundBinary64 q = (let u = pow2 (binade q - 52) in of_int (roundHalfEven (q / u)) * u)"

definition parseFloat :: "rat \<Rightarrow> rat" where
  "parseFloat q =
     (if q = 0 then 0 else if 0 < q then roundBinary64 q else - roundBinary64 (- q))"

subsection \<open>Chain reader\<close>

definition getCurrentBlock :: "env \<Rightarrow> int io" where
  "getCurrentBlock env = io_bind (await_ext RpcError) (\<lambda>_. io_return (height env))"

text \<open>
  \<^verbatim>\<open>publicClient.getLogs\<close> with the recipient filter: the logs of the block range,
  both ends included, whose recipient is the given address.
\<close>

definition getLogs :: "env \<Rightarrow> string \<Rightarrow> int \<Rightarrow> int \<Rightarrow> raw_log list io" where
  "getLogs env a fromBlock toBlock =
     io_bind (await_ext RpcError)
       (\<lambda>_. io_return
          (filter (\<lambda>l. fromBlock \<le> log_blockNumber l \<and> log_blockNumber l \<le> toBlock \<and>
                       toLowerCase (log_to l) = a)
             (chainLogs env)))"

definition toDetected :: "raw_log \<Rightarrow> detected_transfer" where
  "toDetected l =
     \<lparr>d_txHash = log_transactionHash l, d_logIndex = log_logIndex l,
       d_fromAddress = toLowerCase (log_from l), d_toAddress = toLowerCase (log_to l),
       d_amount = formatUnits (log_value l) USDT_DECIMALS,
       d_blockNumber = log_blockNumber l\<rparr>"

definition scanForDeposits :: "env \<Rightarrow> int \<Rightarrow> int \<Rightarrow> detected_transfer list io" where
  "scanForDeposits env fromBlock toBlock =
     (case map_option toLowerCase (depositAddress env) of
        None \<Rightarrow> io_return []
      | Some a \<Rightarrow>
          if a = [] \<or> a = ''0x_your_treasury_address_here'' then io_return []
          else io_catch
                 (io_bind (getLogs env a fromBlock toBlock) (\<lambda>logs. io_return (map toDetected logs)))
                 (\<lambda>e. io_return []))"

definition getConfirmations :: "env \<Rightarrow> int \<Rightarrow> int io" where
  "getConfirmations env b = io_bind (getCurrentBlock env) (\<lambda>currentBlock. io_return (currentBlock - b))"

subsection \<open>Recording detected transfers\<close>

text \<open>The body of the \<^verbatim>\<open>try\<close> block; \<open>True\<close> when it reaches \<^verbatim>\<open>processed++\<close>.\<close>

definition processTransfer :: "env \<Rightarrow> detected_transfer \<Rightarrow> bool io" where
  "processTransfer env t =
     io_bind (prismaRead (findFirstTxByKey (d_txHash t) (d_logIndex t)))
       (\<lambda>existing. case existing of
          Some _ \<Rightarrow> io_return False
        | None \<Rightarrow>
            io_bind (prismaRead (findPendingIntent (d_fromAddress t)))
              (\<lambda>intent.
                 io_bind (prismaWrite
                     (createOnchainTransaction t (numberToDecimal env (parseFloat (d_amount t)))
                        (map_option intent_id intent)))
                   (\<lambda>_. io_bind
                      (case intent of
                         Some i \<Rightarrow> prismaWrite (updateDepositIntent (intent_id i) INTENT_DETECTED)
                       | None \<Rightarrow> io_return ())
                      (\<lambda>_. io_return True))))"

fun processLoop :: "env \<Rightarrow> detected_transfer list \<Rightarrow> nat \<Rightarrow> nat io" where
  "processLoop env [] processed = io_return processed"
| "processLoop env (t # ts) processed =
     io_bind (io_catch (processTransfer env t) (\<lambda>e. io_return False))
       (\<lambda>b. processLoop env ts (if b then processed + 1 else processed))"

definition processDetectedTransfers :: "env \<Rightarrow> detected_transfer list \<Rightarrow> nat io" where
  "processDetectedTransfers env transfers = processLoop env transfers 0"

subsection \<open>Crediting\<close>

definition depositKey :: "onchain_tx \<Rightarrow> string" where
  "depositKey tx = ''deposit:'' @ txHash tx @ '':'' @ showNat (logIndex tx)"

text \<open>The array handed to \<^verbatim>\<open>prisma.$transaction\<close>.\<close>

definition creditWrites :: "env \<Rightarrow> onchain_tx \<Rightarrow> user \<Rightarrow> (database \<Rightarrow> exn + database) list" where
  "creditWrites env tx u =
     (let newBalance = creditBalance u + amount tx in
      [createLedgerTransaction
         \<lparr>ledger_userId = user_id u, ledger_type = DEPOSIT, ledger_amount = amount tx,
           balanceAfter = newBalance, referenceType = ''deposit'', referenceId = tx_id tx,
           idempotencyKey = depositKey tx\<rparr>,
       updateUserBalance (user_id u) newBalance,
       updateOnchainTransaction (tx_id tx)
         (\<lambda>t. t\<lparr>status := CREDITED, creditedAt := Some (now env)\<rparr>)]
      @ (case depositIntentId tx of
           Some i \<Rightarrow> [updateDepositIntent i INTENT_CREDITED]
         | None \<Rightarrow> []))"

text \<open>The \<^verbatim>\<open>try\<close> block of \<^verbatim>\<open>creditUserDeposit\<close>, both \<^verbatim>\<open>catch\<close> branches returning false.\<close>

definition creditCommit :: "env \<Rightarrow> onchain_tx \<Rightarrow> user \<Rightarrow> bool io" where
  "creditCommit env tx u =
     io_catch (io_bind (transaction (creditWrites env tx u)) (\<lambda>_. io_return True))
       (\<lambda>e. io_return False)"

definition creditUserDeposit :: "env \<Rightarrow> nat \<Rightarrow> bool io" where
  "creditUserDeposit env onchainTxId =
     io_bind (prismaRead (\<lambda>d. map_option (\<lambda>t. (t, intentUser t d)) (findUniqueTx onchainTxId d)))
       (\<lambda>r. case r of
          None \<Rightarrow> io_return False
        | Some (tx, u0) \<Rightarrow>
            if status tx = CREDITED then io_return False
            else io_bind
                   (case u0 of
                      Some u \<Rightarrow> io_return (Some u)
                    | None \<Rightarrow> prismaRead (findUserByWallet (fromAddress tx)))
                   (\<lambda>u1. case u1 of
                      None \<Rightarrow> io_return False
                    | Some u \<Rightarrow> creditCommit env tx u))"

subsection \<open>Confirmation tracking\<close>

definition newStatus :: "tx_status \<Rightarrow> int \<Rightarrow> tx_status" where
  "newStatus old c =
     (if c \<ge> confirmationThreshold then CONFIRMED else if c \<ge> 6 then CONFIRMING else old)"

text \<open>
  One round of the \<^verbatim>\<open>for\<close> loop of \<^verbatim>\<open>processConfirmations\<close>. The pair says
  whether \<^verbatim>\<open>updated++\<close> and \<^verbatim>\<open>credited++\<close> were reached: an exception thrown by
  the crediting call is caught by the loop's \<^verbatim>\<open>catch\<close> after \<^verbatim>\<open>updated\<close> was
  already incremented.
\<close>

definition confirmOne :: "env \<Rightarrow> onchain_tx \<Rightarrow> (bool \<times> bool) io" where
  "confirmOne env tx =
     io_catch
       (io_bind (getConfirmations env (blockNumber tx))
          (\<lambda>c. io_bind
             (prismaWrite (updateOnchainTransaction (tx_id tx)
                (\<lambda>t. t\<lparr>confirmations := c, status := newStatus (status tx) c\<rparr>)))
             (\<lambda>_. if newStatus (status tx) c = CONFIRMED \<and> status tx \<noteq> CREDITED
                  then io_catch
                         (io_bind (creditUserDeposit env (tx_id tx)) (\<lambda>b. io_return (True, b)))
                         (\<lambda>e. io_return (True, False))
                  else io_return (True, False))))
       (\<lambda>e. io_return (False, False))"

fun confirmLoop :: "env \<Rightarrow> onchain_tx list \<Rightarrow> nat \<Rightarrow> nat \<Rightarrow> (nat \<times> nat) io" where
  "confirmLoop env [] updated credited = io_return (updated, credited)"
| "confirmLoop env (tx # txs) updated credited =
     io_bind (confirmOne env tx)
       (\<lambda>(u, c). confirmLoop env txs (if u then updated + 1 else updated)
                   (if c then credited + 1 else credited))"

definition processConfirmations :: "env \<Rightarrow> (nat \<times> nat) io" where
  "processConfirmations env =
     io_bind (prismaRead findManyPending) (\<lambda>pendingTxs. confirmLoop env pendingTxs 0 0)"

subsection \<open>The pass\<close>

definition getLastScannedBlock :: "env \<Rightarrow> int io" where
  "getLastScannedBlock env =
     io_bind (prismaRead (\<lambda>d. latestBlock (onchainTransaction d)))
       (\<lambda>latest. case latest of
          Some b \<Rightarrow> io_return b
        | None \<Rightarrow> io_bind (getCurrentBlock env) (\<lambda>currentBlock. io_return (currentBlock - 1000)))"

record scan_stats =
  scannedBlocks :: int
  newDeposits :: nat
  updatedConfirmations :: nat
  creditedDeposits :: nat

definition runDepositScanner :: "env \<Rightarrow> scan_stats io" where
  "runDepositScanner env =
     io_bind (getCurrentBlock env)
       (\<lambda>currentBlock. io_bind (getLastScannedBlock env)
          (\<lambda>lastScanned.
             let fromBlock = lastScanned + 1; toBlock = currentBlock - 1 in
             if fromBlock \<ge> toBlock
             then io_return \<lparr>scannedBlocks = 0, newDeposits = 0, updatedConfirmations = 0,
                               creditedDeposits = 0\<rparr>
             else io_bind (scanForDeposits env fromBlock toBlock)
                    (\<lambda>transfers. io_bind (processDetectedTransfers env transfers)
                       (\<lambda>n. io_bind (processConfirmations env)
                          (\<lambda>(updated, credited).
                             io_return \<lparr>scannedBlocks = toBlock - fromBlock + 1, newDeposits = n,
                                          updatedConfirmations = updated,
                                          creditedDeposits = credited\<rparr>)))))"


section \<open>Auxiliary definitions\<close>

text \<open>The writes of a transaction applied to the store alone, stopping at the first error.\<close>

fun applyWrites :: "(database \<Rightarrow> exn + database) list \<Rightarrow> database \<Rightarrow> exn + database" where
  "applyWrites [] d = Inr d"
| "applyWrites (w # ws) d = (case w d of Inl e \<Rightarrow> Inl e | Inr d' \<Rightarrow> applyWrites ws d')"



text \<open>The user \<open>creditUserDeposit\<close> credits: the linked intent's user, else the user registered with the sender's address.\<close>

definition resolveUser :: "onchain_tx \<Rightarrow> database \<Rightarrow> user option" where
  "resolveUser tx d =
     (case intentUser tx d of
        Some u \<Rightarrow> Some u
      | None \<Rightarrow> findUserByWallet (fromAddress tx) d)"

text \<open>The store after the four writes of the crediting transaction.\<close>

definition credited :: "env \<Rightarrow> onchain_tx \<Rightarrow> user \<Rightarrow> database \<Rightarrow> database" where
  "credited env tx u d =
     d\<lparr>ledgerTransaction := ledgerTransaction d @
          [\<lparr>ledger_userId = user_id u, ledger_type = DEPOSIT, ledger_amount = amount tx,
            balanceAfter = creditBalance u + amount tx, referenceType = ''deposit'',
            referenceId = tx_id tx, idempotencyKey = depositKey tx\<rparr>],
        users := map (\<lambda>x. if user_id x = user_id u
                          then x\<lparr>creditBalance := creditBalance u + amount tx\<rparr> else x) (users d),
        onchainTransaction :=
          map (\<lambda>t. if tx_id t = tx_id tx
                   then t\<lparr>status := CREDITED, creditedAt := Some (now env)\<rparr> else t)
            (onchainTransaction d),
        depositIntent :=
          (case depositIntentId tx of
             None \<Rightarrow> depositIntent d
           | Some j \<Rightarrow> map (\<lambda>x. if intent_id x = j then x\<lparr>intent_status := INTENT_CREDITED\<rparr> else x)
                        (depositIntent d))\<rparr>"


text \<open>
  Concurrent invocations of \<open>creditUserDeposit\<close> for one transfer. An invocation is at
  one of its \<^verbatim>\<open>await\<close> points: before the first read, between the read of the
  transfer and the lookup of the user by wallet address, before the transaction, or
  finished. One step runs the invocation up to its next \<^verbatim>\<open>await\<close>; the calls to the
  store are atomic and the transaction is one of them.
\<close>

datatype thread = Start | HaveTx onchain_tx | Ready onchain_tx user | Done "exn + bool"

definition threadStep :: "env \<Rightarrow> nat \<Rightarrow> thread \<Rightarrow> world \<Rightarrow> thread \<times> world" where
  "threadStep env i th s =
     (case th of
        Start \<Rightarrow>
          (case prismaRead (\<lambda>d. map_option (\<lambda>t. (t, intentUser t d)) (findUniqueTx i d)) s of
             (Inl e, s') \<Rightarrow> (Done (Inl e), s')
           | (Inr None, s') \<Rightarrow> (Done (Inr False), s')
           | (Inr (Some (tx, u0)), s') \<Rightarrow>
               if status tx = CREDITED then (Done (Inr False), s')
               else (case u0 of Some u \<Rightarrow> (Ready tx u, s') | None \<Rightarrow> (HaveTx tx, s')))
      | HaveTx tx \<Rightarrow>
          (case prismaRead (findUserByWallet (fromAddress tx)) s of
             (Inl e, s') \<Rightarrow> (Done (Inl e), s')
           | (Inr None, s') \<Rightarrow> (Done (Inr False), s')
           | (Inr (Some u), s') \<Rightarrow> (Ready tx u, s'))
      | Ready tx u \<Rightarrow> (case creditCommit env tx u s of (r, s') \<Rightarrow> (Done r, s'))
      | Done r \<Rightarrow> (Done r, s))"





text \<open>
  A row after some writes: its identifier, natural key and block number are as before, and
  the whole row is as before unless its identifier is in \<open>I\<close>.
\<close>

definition rowKept :: "nat set \<Rightarrow> onchain_tx \<Rightarrow> onchain_tx \<Rightarrow> bool" where
  "rowKept I t t' =
     (tx_id t' = tx_id t \<and> txHash t' = txHash t \<and> logIndex t' = logIndex t \<and>
      blockNumber t' = blockNumber t \<and> (tx_id t \<notin> I \<longrightarrow> t' = t))"

text \<open>An action that changes the rows of the transfer table at the identifiers in \<open>I\<close> at most.\<close>

definition keepsRows :: "nat set \<Rightarrow> 'a io \<Rightarrow> bool" where
  "keepsRows I m =
     (\<forall>s r s'. m s = (r, s') \<longrightarrow>
        list_all2 (rowKept I) (onchainTransaction (db s)) (onchainTransaction (db s')))"

text \<open>The natural key of a row.\<close>

definition txKey :: "onchain_tx \<Rightarrow> string \<times> nat" where
  "txKey t = (txHash t, logIndex t)"

text \<open>The test at the head of \<open>scanForDeposits\<close>.\<close>

definition addressConfigured :: "env \<Rightarrow> bool" where
  "addressConfigured env =
     (case map_option toLowerCase (depositAddress env) of
        None \<Rightarrow> False
      | Some a \<Rightarrow> a \<noteq> [] \<and> a \<noteq> ''0x_your_treasury_address_here'')"

text \<open>
  What the tracker leaves in a row \<open>t'\<close> for the selected row \<open>t\<close>: the recomputed
  confirmation count, and the status of the state machine, which the crediting engine may
  have turned from \<open>CONFIRMED\<close> into \<open>CREDITED\<close> in the same round.
\<close>

definition tracked :: "env \<Rightarrow> onchain_tx \<Rightarrow> onchain_tx \<Rightarrow> bool" where
  "tracked env t t' =
     (confirmations t' = height env - blockNumber t \<and>
      (status t' = newStatus (status t) (height env - blockNumber t) \<or>
       (newStatus (status t) (height env - blockNumber t) = CONFIRMED \<and> status t' = CREDITED)))"

text \<open>The identifiers of the transfer table are unique and below the counter of the store.\<close>

definition wfIds :: "database \<Rightarrow> bool" where
  "wfIds d =
     (distinct (map tx_id (onchainTransaction d)) \<and>
      (\<forall>t \<in> set (onchainTransaction d). tx_id t < nextId d))"

text \<open>The natural key of a detected transfer.\<close>

definition detectedKey :: "detected_transfer \<Rightarrow> string \<times> nat" where
  "detectedKey t = (d_txHash t, d_logIndex t)"

subsection \<open>Example stores\<close>

definition alice :: user where
  "alice = \<lparr>user_id = 1, walletAddress = ''0xaa'', creditBalance = 10\<rparr>"

definition transfer7 :: onchain_tx where
  "transfer7 =
     \<lparr>tx_id = 7, txHash = ''0xh'', logIndex = 3, fromAddress = ''0xaa'', toAddress = ''0xtt'',
       amount = 5, blockNumber = 985, confirmations = 0, status = PENDING,
       depositIntentId = None, creditedAt = None\<rparr>"


definition store0 :: database where
  "store0 =
     \<lparr>onchainTransaction = [transfer7], depositIntent = [], users = [alice],
       ledgerTransaction = [], nextId = 8\<rparr>"

definition env1000 :: env where
  "env1000 =
     \<lparr>depositAddress = Some ''0xTT'', height = 1000, chainLogs = [], now = 42,
       numberToDecimal = (\<lambda>x. x)\<rparr>"


text \<open>The same store before anybody has registered the sender's wallet.\<close>

definition storeNoUser :: database where
  "storeNoUser = store0\<lparr>users := []\<rparr>"

text \<open>A store whose newest row is in block 998, and a chain whose block 999 holds a deposit.\<close>

definition transfer998 :: onchain_tx where
  "transfer998 =
     \<lparr>tx_id = 4, txHash = ''0xf'', logIndex = 0, fromAddress = ''0xaa'', toAddress = ''0xtt'',
       amount = 1, blockNumber = 998, confirmations = 0, status = PENDING,
       depositIntentId = None, creditedAt = None\<rparr>"

definition store998 :: database where
  "store998 =
     \<lparr>onchainTransaction = [transfer998], depositIntent = [], users = [alice],
       ledgerTransaction = [], nextId = 5\<rparr>"

definition log999 :: raw_log where
  "log999 =
     \<lparr>log_transactionHash = ''0xg'', log_logIndex = 0, log_from = ''0xAA'', log_to = ''0xTT'',
       log_value = 2500000, log_blockNumber = 999\<rparr>"

definition env999 :: env where
  "env999 = env1000\<lparr>chainLogs := [log999]\<rparr>"

text \<open>The transfer of \<open>store0\<close> after a pass confirmed it without crediting it.\<close>

definition transferConfirmed :: onchain_tx where
  "transferConfirmed = transfer7\<lparr>confirmations := 15, status := CONFIRMED\<rparr>"

definition storeConfirmed :: database where
  "storeConfirmed = store0\<lparr>onchainTransaction := [transferConfirmed]\<rparr>"

text \<open>A transfer in \<open>CONFIRMING\<close> that the node now reports five blocks deep.\<close>

definition transferConfirming :: onchain_tx where
  "transferConfirming = transfer7\<lparr>blockNumber := 995, confirmations := 6, status := CONFIRMING\<rparr>"

definition storeConfirming :: database where
  "storeConfirming = store0\<lparr>onchainTransaction := [transferConfirming]\<rparr>"

definition envUnset :: env where
  "envUnset = env1000\<lparr>depositAddress := None\<rparr>"

definition envPlaceholder :: env where
  "envPlaceholder = env1000\<lparr>depositAddress := Some ''0x_YOUR_TREASURY_ADDRESS_HERE''\<rparr>"




definition world0 :: world where
  "world0 = \<lparr>db = store0, faults = []\<rparr>"

definition worldFail1 :: world where
  "worldFail1 = \<lparr>db = store0, faults = [True]\<rparr>"

text \<open>
  Two deposits of 8589934592.000001 and 8589934592.000002 USDT into a store without
  rows; the conversion of the store is left open.
\<close>

definition logBig1 :: raw_log where
  "logBig1 =
     \<lparr>log_transactionHash = ''0xc'', log_logIndex = 0, log_from = ''0xAA'', log_to = ''0xTT'',
       log_value = 8589934592000001, log_blockNumber = 990\<rparr>"

definition logBig2 :: raw_log where
  "logBig2 =
     \<lparr>log_transactionHash = ''0xd'', log_logIndex = 0, log_from = ''0xAA'', log_to = ''0xTT'',
       log_value = 8589934592000002, log_blockNumber = 990\<rparr>"

definition envBig :: "(rat \<Rightarrow> rat) \<Rightarrow> env" where
  "envBig f =
     \<lparr>depositAddress = Some ''0xTT'', height = 1000, chainLogs = [logBig1, logBig2], now = 42,
       numberToDecimal = f\<rparr>"

definition storeEmpty :: database where
  "storeEmpty =
     \<lparr>onchainTransaction = [], depositIntent = [], users = [], ledgerTransaction = [],
       nextId = 0\<rparr>"

definition worldConfirming :: world where
  "worldConfirming = \<lparr>db = storeConfirming, faults = []\<rparr>"

text \<open>The store after \<open>transfer7\<close> was credited, and the log that \<open>transfer7\<close> was recorded from.\<close>

definition worldCredited :: world where
  "worldCredited = \<lparr>db = credited env1000 transfer7 alice store0, faults = []\<rparr>"

definition transfer7Credited :: onchain_tx where
  "transfer7Credited = transfer7\<lparr>status := CREDITED, creditedAt := Some 42\<rparr>"

definition log985 :: raw_log where
  "log985 =
     \<lparr>log_transactionHash = ''0xh'', log_logIndex = 3, log_from = ''0xAA'', log_to = ''0xTT'',
       log_value = 5000000, log_blockNumber = 985\<rparr>"

definition world998 :: world where
  "world998 = \<lparr>db = store998, faults = []\<rparr>"

definition worldConfirmed :: world where
  "worldConfirmed = \<lparr>db = storeConfirmed, faults = []\<rparr>"

section \<open>Basic facts about awaited calls and transactions\<close>

lemma await_ext_cases:
  "await_ext e s = (r, s') \<Longrightarrow> db s' = db s \<and> (r = Inl e \<or> r = Inr ())"
  by (auto simp: await_ext_def split: list.splits if_splits)

lemma await_ext_nofault [simp]:
  "faults s = [] \<Longrightarrow> await_ext e s = (Inr (), s)"
  by (simp add: await_ext_def)

lemma prismaRead_cases:
  "prismaRead q s = (r, s') \<Longrightarrow> db s' = db s \<and> (r = Inl DbError \<or> r = Inr (q (db s)))"
  by (auto simp: prismaRead_def io_bind_def await_ext_def split: list.splits if_splits)

lemma prismaRead_nofault [simp]:
  "faults s = [] \<Longrightarrow> prismaRead q s = (Inr (q (db s)), s)"
  by (simp add: prismaRead_def io_bind_def)

lemma prismaWrite_cases:
  "prismaWrite w s = (r, s') \<Longrightarrow>
     (r = Inr () \<and> w (db s) = Inr (db s')) \<or> ((\<exists>e. r = Inl e) \<and> db s' = db s)"
  by (auto simp: prismaWrite_def io_bind_def await_ext_def split: list.splits if_splits sum.splits)

lemma prismaWrite_nofault:
  "faults s = [] \<Longrightarrow>
     prismaWrite w s = (case w (db s) of Inl e \<Rightarrow> (Inl e, s) | Inr d \<Rightarrow> (Inr (), s\<lparr>db := d\<rparr>))"
  by (simp add: prismaWrite_def io_bind_def)

lemma batch_ok:
  "batch ws s = (Inr u, s') \<Longrightarrow> applyWrites ws (db s) = Inr (db s')"
proof (induction ws arbitrary: s)
  case Nil
  then show ?case by (simp add: io_return_def)
next
  case (Cons w ws)
  obtain r1 s1 where w1: "prismaWrite w s = (r1, s1)" by (cases "prismaWrite w s")
  with Cons.prems have r1: "r1 = Inr ()" and rest: "batch ws s1 = (Inr u, s')"
    by (auto simp: io_bind_def split: sum.splits)
  from prismaWrite_cases [OF w1] r1 have "w (db s) = Inr (db s1)" by auto
  with Cons.IH [OF rest] show ?case by simp
qed

lemma transaction_cases:
  "transaction ws s = (r, s') \<Longrightarrow>
     (r = Inr () \<and> applyWrites ws (db s) = Inr (db s')) \<or> ((\<exists>e. r = Inl e) \<and> db s' = db s)"
proof -
  assume t: "transaction ws s = (r, s')"
  obtain r1 s1 where b: "batch ws s = (r1, s1)" by (cases "batch ws s")
  show ?thesis
  proof (cases r1)
    case (Inl e)
    with t b show ?thesis by (auto simp: transaction_def io_bind_def)
  next
    case (Inr u)
    obtain r2 s2 where a: "await_ext DbError s1 = (r2, s2)" by (cases "await_ext DbError s1")
    from await_ext_cases [OF a] have d2: "db s2 = db s1" and r2: "r2 = Inl DbError \<or> r2 = Inr ()"
      by auto
    from batch_ok b Inr have ap: "applyWrites ws (db s) = Inr (db s1)" by blast
    from t b Inr a r2 d2 ap show ?thesis
      by (auto simp: transaction_def io_bind_def)
  qed
qed

lemma creditCommit_cases:
  "creditCommit env tx u s = (r, s') \<Longrightarrow>
     (r = Inr True \<and> applyWrites (creditWrites env tx u) (db s) = Inr (db s')) \<or>
     (r = Inr False \<and> db s' = db s)"
proof -
  assume c: "creditCommit env tx u s = (r, s')"
  obtain r1 s1 where t: "transaction (creditWrites env tx u) s = (r1, s1)"
    by (cases "transaction (creditWrites env tx u) s")
  from transaction_cases [OF t] c t show ?thesis
    by (auto simp: creditCommit_def io_catch_def io_bind_def io_return_def)
qed



subsection \<open>Runs in which no call fails\<close>

lemma batch_nofault:
  "faults s = [] \<Longrightarrow>
     (case applyWrites ws (db s) of
        Inl e \<Rightarrow> \<exists>d. batch ws s = (Inl e, s\<lparr>db := d\<rparr>)
      | Inr d \<Rightarrow> batch ws s = (Inr (), s\<lparr>db := d\<rparr>))"
proof (induction ws arbitrary: s)
  case Nil
  then show ?case by (simp add: io_return_def)
next
  case (Cons w ws)
  show ?case
  proof (cases "w (db s)")
    case (Inl e)
    with Cons.prems have "batch (w # ws) s = (Inl e, s\<lparr>db := db s\<rparr>)"
      by (simp add: io_bind_def prismaWrite_nofault)
    then have "\<exists>d. batch (w # ws) s = (Inl e, s\<lparr>db := d\<rparr>)" by (rule exI)
    with Inl show ?thesis by simp
  next
    case (Inr d1)
    let ?s1 = "s\<lparr>db := d1\<rparr>"
    have f1: "faults ?s1 = []" using Cons.prems by simp
    have b: "batch (w # ws) s = batch ws ?s1"
      using Cons.prems Inr by (simp add: io_bind_def prismaWrite_nofault)
    from Cons.IH [OF f1] b Inr show ?thesis
      by (auto split: sum.splits)
  qed
qed

lemma transaction_nofault:
  "faults s = [] \<Longrightarrow>
     transaction ws s =
       (case applyWrites ws (db s) of Inl e \<Rightarrow> (Inl e, s) | Inr d \<Rightarrow> (Inr (), s\<lparr>db := d\<rparr>))"
  using batch_nofault [of s ws]
  by (auto simp: transaction_def io_bind_def split: sum.splits)

lemma creditCommit_nofault:
  "faults s = [] \<Longrightarrow>
     creditCommit env tx u s =
       (case applyWrites (creditWrites env tx u) (db s) of
          Inl e \<Rightarrow> (Inr False, s)
        | Inr d \<Rightarrow> (Inr True, s\<lparr>db := d\<rparr>))"
  by (simp add: creditCommit_def io_catch_def io_bind_def io_return_def transaction_nofault
        split: sum.splits)

lemma creditUserDeposit_nofault:
  "faults s = [] \<Longrightarrow>
     creditUserDeposit env i s =
       (case findUniqueTx i (db s) of
          None \<Rightarrow> (Inr False, s)
        | Some tx \<Rightarrow>
            if status tx = CREDITED then (Inr False, s)
            else (case resolveUser tx (db s) of
                    None \<Rightarrow> (Inr False, s)
                  | Some u \<Rightarrow> creditCommit env tx u s))"
  by (simp add: creditUserDeposit_def io_bind_def io_return_def resolveUser_def
        split: option.splits)

subsection \<open>The effect of the crediting transaction\<close>

lemma creditWrites_effect:
  assumes "applyWrites (creditWrites env tx u) d = Inr d'"
  shows "d' = credited env tx u d"
    and "\<forall>l \<in> set (ledgerTransaction d). idempotencyKey l \<noteq> depositKey tx"
    and "\<exists>x \<in> set (users d). user_id x = user_id u"
    and "\<exists>t \<in> set (onchainTransaction d). tx_id t = tx_id tx"
  using assms
  by (auto simp: creditWrites_def credited_def Let_def createLedgerTransaction_def
        updateUserBalance_def updateOnchainTransaction_def updateDepositIntent_def
        split: if_splits option.splits sum.splits)



lemma findUniqueTx_id: "findUniqueTx i d = Some tx \<Longrightarrow> tx_id tx = i"
  by (auto simp: findUniqueTx_def find_Some_iff)

lemma findUniqueTx_mem: "findUniqueTx i d = Some tx \<Longrightarrow> tx \<in> set (onchainTransaction d)"
  by (auto simp: findUniqueTx_def find_Some_iff)








subsection \<open>Invocations one after the other\<close>

lemma creditUserDeposit_result:
  assumes c: "creditUserDeposit env i s = (r, s')"
  shows "(r \<noteq> Inr True \<and> db s' = db s) \<or>
         (r = Inr True \<and>
          (\<exists>tx u. findUniqueTx i (db s) = Some tx \<and> status tx \<noteq> CREDITED \<and>
                  resolveUser tx (db s) = Some u \<and>
                  applyWrites (creditWrites env tx u) (db s) = Inr (db s')))"
proof -
  let ?q = "\<lambda>d. map_option (\<lambda>t. (t, intentUser t d)) (findUniqueTx i d)"
  obtain r1 s1 where r: "prismaRead ?q s = (r1, s1)" by (cases "prismaRead ?q s")
  from prismaRead_cases [OF r] have d1: "db s1 = db s" and r1: "r1 = Inl DbError \<or> r1 = Inr (?q (db s))"
    by auto
  show ?thesis
  proof (cases r1)
    case (Inl e)
    with c r d1 show ?thesis by (auto simp: creditUserDeposit_def io_bind_def)
  next
    case (Inr x)
    with r1 have x: "x = ?q (db s)" by simp
    show ?thesis
    proof (cases x)
      case None
      with c r d1 Inr show ?thesis by (auto simp: creditUserDeposit_def io_bind_def io_return_def)
    next
      case (Some p)
      obtain tx u0 where p: "p = (tx, u0)" by (cases p)
      from x Some p have "map_option (\<lambda>t. (t, intentUser t (db s))) (findUniqueTx i (db s)) = Some (tx, u0)"
        by simp
      then have ftx: "findUniqueTx i (db s) = Some tx" and u0: "u0 = intentUser tx (db s)"
        by (cases "findUniqueTx i (db s)"; auto)+
      show ?thesis
      proof (cases "status tx = CREDITED")
        case True
        with c r d1 Inr Some p show ?thesis
          by (auto simp: creditUserDeposit_def io_bind_def io_return_def)
      next
        case False
        let ?m = "case u0 of Some u \<Rightarrow> io_return (Some u)
                  | None \<Rightarrow> prismaRead (findUserByWallet (fromAddress tx))"
        obtain r2 s2 where m: "?m s1 = (r2, s2)" by (cases "?m s1")
        have d2: "db s2 = db s1"
          using m prismaRead_cases by (cases u0) (auto simp: io_return_def)
        have r2: "(\<exists>e. r2 = Inl e) \<or> r2 = Inr (resolveUser tx (db s))"
        proof (cases u0)
          case None
          with m have "prismaRead (findUserByWallet (fromAddress tx)) s1 = (r2, s2)" by simp
          from prismaRead_cases [OF this] None u0 d1 show ?thesis
            by (auto simp: resolveUser_def)
        next
          case (Some u)
          with m have a: "r2 = Inr (Some u)" by (simp add: io_return_def)
          from Some u0 have "intentUser tx (db s) = Some u" by simp
          then have "resolveUser tx (db s) = Some u" by (simp add: resolveUser_def)
          with a show ?thesis by simp
        qed
        from c r Inr Some p False m
        have rest: "(case r2 of Inl e \<Rightarrow> (Inl e, s2)
                     | Inr u1 \<Rightarrow> (case u1 of None \<Rightarrow> io_return False
                                   | Some u \<Rightarrow> creditCommit env tx u) s2) = (r, s')"
          by (simp add: creditUserDeposit_def io_bind_def)
        show ?thesis
        proof (cases r2)
          case (Inl e)
          with rest d1 d2 show ?thesis by auto
        next
          case (Inr u1)
          with r2 have u1: "u1 = resolveUser tx (db s)" by simp
          show ?thesis
          proof (cases u1)
            case None
            with rest Inr d1 d2 show ?thesis by (auto simp: io_return_def)
          next
            case (Some u)
            with rest Inr have "creditCommit env tx u s2 = (r, s')" by simp
            from creditCommit_cases [OF this] d1 d2 ftx False u1 Some show ?thesis by auto
          qed
        qed
      qed
    qed
  qed
qed

lemma creditUserDeposit_credited_noop:
  assumes "findUniqueTx i (db s) = Some tx" and "status tx = CREDITED"
    and "creditUserDeposit env i s = (r, s')"
  shows "r \<noteq> Inr True \<and> db s' = db s"
  using creditUserDeposit_result [OF assms(3)] assms(1,2) by auto





subsection \<open>Interleaved invocations\<close>

text \<open>Three steps of one invocation, taken without interruption, are \<open>creditUserDeposit\<close>.\<close>

lemma threadStep_sequential:
  assumes "threadStep env i Start s = (t1, s1)" and "threadStep env i t1 s1 = (t2, s2)"
    and "threadStep env i t2 s2 = (t3, s3)"
  shows "(t3, s3) = (Done (fst (creditUserDeposit env i s)), snd (creditUserDeposit env i s))"
proof -
  let ?q = "\<lambda>d. map_option (\<lambda>t. (t, intentUser t d)) (findUniqueTx i d)"
  obtain r1 w1 where r: "prismaRead ?q s = (r1, w1)" by (cases "prismaRead ?q s")
  show ?thesis
  proof (cases r1)
    case (Inl e)
    with r assms show ?thesis
      by (auto simp: threadStep_def creditUserDeposit_def io_bind_def)
  next
    case (Inr x)
    show ?thesis
    proof (cases x)
      case None
      with r Inr assms show ?thesis
        by (auto simp: threadStep_def creditUserDeposit_def io_bind_def io_return_def)
    next
      case (Some p)
      obtain tx u0 where p: "p = (tx, u0)" by (cases p)
      show ?thesis
      proof (cases "status tx = CREDITED")
        case True
        with r Inr Some p assms show ?thesis
          by (auto simp: threadStep_def creditUserDeposit_def io_bind_def io_return_def)
      next
        case False
        show ?thesis
        proof (cases u0)
          case (Some u)
          with r Inr \<open>x = Some p\<close> p False assms(1) have t1: "t1 = Ready tx u" "s1 = w1"
            by (auto simp: threadStep_def)
          obtain rc sc where c: "creditCommit env tx u w1 = (rc, sc)"
            by (cases "creditCommit env tx u w1")
          with t1 assms(2) have t2: "t2 = Done rc" "s2 = sc" by (auto simp: threadStep_def)
          with assms(3) have "t3 = Done rc" "s3 = sc" by (auto simp: threadStep_def)
          moreover have "creditUserDeposit env i s = (rc, sc)"
            using r Inr \<open>x = Some p\<close> p False Some c
            by (simp add: creditUserDeposit_def io_bind_def io_return_def)
          ultimately show ?thesis by simp
        next
          case None
          with r Inr \<open>x = Some p\<close> p False assms(1) have t1: "t1 = HaveTx tx" "s1 = w1"
            by (auto simp: threadStep_def)
          obtain r2 w2 where r2: "prismaRead (findUserByWallet (fromAddress tx)) w1 = (r2, w2)"
            by (cases "prismaRead (findUserByWallet (fromAddress tx)) w1")
          have cu: "creditUserDeposit env i s =
                      (case r2 of Inl e \<Rightarrow> (Inl e, w2)
                       | Inr u1 \<Rightarrow> (case u1 of None \<Rightarrow> (Inr False, w2)
                                     | Some u \<Rightarrow> creditCommit env tx u w2))"
            using r Inr \<open>x = Some p\<close> p False None r2
            by (simp add: creditUserDeposit_def io_bind_def io_return_def
                  split: option.splits sum.splits)
          show ?thesis
          proof (cases r2)
            case (Inl e)
            with t1 r2 assms(2,3) cu show ?thesis by (auto simp: threadStep_def)
          next
            case (Inr u1)
            show ?thesis
            proof (cases u1)
              case None
              with Inr t1 r2 assms(2,3) cu show ?thesis by (auto simp: threadStep_def)
            next
              case (Some u)
              with Inr t1 r2 assms(2) have t2: "t2 = Ready tx u" "s2 = w2"
                by (auto simp: threadStep_def)
              with assms(3) have "(t3, s3) = (Done (fst (creditCommit env tx u w2)),
                                             snd (creditCommit env tx u w2))"
                by (auto simp: threadStep_def split: prod.splits)
              with cu Inr Some show ?thesis by simp
            qed
          qed
        qed
      qed
    qed
  qed
qed












subsection \<open>Caught and uncaught failures\<close>

lemma io_catch_return_total: "\<exists>x. fst (io_catch m (\<lambda>e. io_return y) s) = Inr x"
  by (cases "m s") (auto simp: io_catch_def io_return_def split: sum.splits)

lemma io_catch_return_run: "\<exists>x s'. io_catch m (\<lambda>e. io_return y) s = (Inr x, s')"
  by (cases "m s") (auto simp: io_catch_def io_return_def split: sum.splits)

lemma scanForDeposits_total: "\<exists>x. fst (scanForDeposits env a b s) = Inr x"
  using io_catch_return_total
  by (auto simp: scanForDeposits_def io_return_def split: option.splits)

lemma processLoop_total: "\<exists>x. fst (processLoop env ts k s) = Inr x"
proof (induction ts arbitrary: k s)
  case Nil
  then show ?case by (simp add: io_return_def)
next
  case (Cons t ts)
  obtain b s1 where c: "io_catch (processTransfer env t) (\<lambda>e. io_return False) s = (Inr b, s1)"
    using io_catch_return_run [of "processTransfer env t" False s] by blast
  from Cons.IH [of "if b then k + 1 else k" s1] c show ?case
    by (simp add: io_bind_def)
qed

lemma confirmOne_total: "\<exists>x s'. confirmOne env tx s = (Inr x, s')"
  unfolding confirmOne_def by (rule io_catch_return_run)

lemma confirmLoop_total: "\<exists>x. fst (confirmLoop env txs u c s) = Inr x"
proof (induction txs arbitrary: u c s)
  case Nil
  then show ?case by (simp add: io_return_def)
next
  case (Cons tx txs)
  obtain p s1 where c: "confirmOne env tx s = (Inr p, s1)"
    using confirmOne_total by blast
  obtain a b where p: "p = (a, b)" by (cases p)
  from Cons.IH [of "if a then u + 1 else u" "if b then c + 1 else c" s1] c p show ?case
    by (simp add: io_bind_def)
qed

lemma processConfirmations_raises:
  "fst (processConfirmations env s) = Inl e \<Longrightarrow> fst (prismaRead findManyPending s) = Inl e"
proof -
  assume a: "fst (processConfirmations env s) = Inl e"
  obtain r s1 where r: "prismaRead findManyPending s = (r, s1)"
    by (cases "prismaRead findManyPending s")
  show ?thesis
  proof (cases r)
    case (Inl e')
    with a r show ?thesis by (simp add: processConfirmations_def io_bind_def)
  next
    case (Inr txs)
    with a r confirmLoop_total [of env txs 0 0 s1] show ?thesis
      by (auto simp: processConfirmations_def io_bind_def)
  qed
qed

lemma getCurrentBlock_cases:
  "getCurrentBlock env s = (r, s') \<Longrightarrow> db s' = db s \<and> (r = Inl RpcError \<or> r = Inr (height env))"
  by (auto simp: getCurrentBlock_def io_bind_def io_return_def await_ext_def
        split: list.splits if_splits)

lemma getCurrentBlock_nofault [simp]:
  "faults s = [] \<Longrightarrow> getCurrentBlock env s = (Inr (height env), s)"
  by (simp add: getCurrentBlock_def io_bind_def io_return_def)

lemma latestBlock_Max:
  "rows \<noteq> [] \<Longrightarrow> latestBlock rows = Some (Max (blockNumber ` set rows))"
proof (induction rows)
  case Nil
  then show ?case by simp
next
  case (Cons t ts)
  show ?case
  proof (cases ts)
    case Nil
    then show ?thesis by simp
  next
    case (Cons a as)
    with Cons.IH have "latestBlock ts = Some (Max (blockNumber ` set ts))" by simp
    moreover have "ts \<noteq> []" using Cons by simp
    ultimately show ?thesis by (simp add: max_def Max_insert)
  qed
qed

lemma latestBlock_None: "latestBlock rows = None \<longleftrightarrow> rows = []"
  by (cases rows) (auto split: option.splits)

lemma getLastScannedBlock_cases:
  assumes "getLastScannedBlock env s = (r, s')"
  shows "db s' = db s \<and>
         ((\<exists>e. r = Inl e \<and> (e = DbError \<or> e = RpcError)) \<or>
          r = Inr (if onchainTransaction (db s) = [] then height env - 1000
                   else Max (blockNumber ` set (onchainTransaction (db s)))))"
proof -
  let ?q = "\<lambda>d. latestBlock (onchainTransaction d)"
  obtain r1 s1 where r: "prismaRead ?q s = (r1, s1)" by (cases "prismaRead ?q s")
  from prismaRead_cases [OF r] have d1: "db s1 = db s" and r1: "r1 = Inl DbError \<or> r1 = Inr (?q (db s))"
    by auto
  from r1 show ?thesis
  proof
    assume "r1 = Inl DbError"
    with assms r d1 show ?thesis by (auto simp: getLastScannedBlock_def io_bind_def)
  next
    assume a: "r1 = Inr (?q (db s))"
    show ?thesis
    proof (cases "onchainTransaction (db s) = []")
      case True
      obtain r2 s2 where g: "getCurrentBlock env s1 = (r2, s2)" by (cases "getCurrentBlock env s1")
      from getCurrentBlock_cases [OF g] d1 have "db s2 = db s" and "r2 = Inl RpcError \<or> r2 = Inr (height env)"
        by auto
      with assms r a True g show ?thesis
        by (auto simp: getLastScannedBlock_def io_bind_def io_return_def)
    next
      case False
      with assms r a d1 latestBlock_Max [OF False] show ?thesis
        by (auto simp: getLastScannedBlock_def io_bind_def io_return_def)
    qed
  qed
qed

lemma getLastScannedBlock_nofault:
  "faults s = [] \<Longrightarrow>
     getLastScannedBlock env s =
       (Inr (if onchainTransaction (db s) = [] then height env - 1000
             else Max (blockNumber ` set (onchainTransaction (db s)))), s)"
  using latestBlock_Max [of "onchainTransaction (db s)"]
  by (cases "onchainTransaction (db s) = []")
     (auto simp: getLastScannedBlock_def io_bind_def io_return_def)

lemma scanForDeposits_nofault:
  "faults s = [] \<Longrightarrow> \<exists>ts. scanForDeposits env a b s = (Inr ts, s)"
  by (auto simp: scanForDeposits_def getLogs_def io_return_def io_bind_def io_catch_def
        split: option.splits)

lemma processTransfer_quiet:
  "faults s = [] \<Longrightarrow> faults (snd (processTransfer env t s)) = []"
  by (auto simp: processTransfer_def io_bind_def io_return_def prismaWrite_nofault
        createOnchainTransaction_def split: option.splits sum.splits)

lemma processLoop_nofault:
  "faults s = [] \<Longrightarrow> \<exists>n s'. processLoop env ts k s = (Inr n, s') \<and> faults s' = []"
proof (induction ts arbitrary: k s)
  case Nil
  then show ?case by (simp add: io_return_def)
next
  case (Cons t ts)
  obtain b s1 where c: "io_catch (processTransfer env t) (\<lambda>e. io_return False) s = (Inr b, s1)"
    using io_catch_return_run [of "processTransfer env t" False s] by blast
  have "faults s1 = []"
    using c processTransfer_quiet [OF Cons.prems, of env t]
    by (cases "processTransfer env t s") (auto simp: io_catch_def io_return_def split: sum.splits)
  from Cons.IH [OF this, of "if b then k + 1 else k"] c show ?case
    by (simp add: io_bind_def)
qed

lemma runDepositScanner_nofault:
  assumes "faults s = []"
  shows "\<exists>st. fst (runDepositScanner env s) = Inr st"
proof -
  let ?last = "if onchainTransaction (db s) = [] then height env - 1000
               else Max (blockNumber ` set (onchainTransaction (db s)))"
  show ?thesis
  proof (cases "?last + 1 \<ge> height env - 1")
    case True
    with assms show ?thesis
      by (simp add: runDepositScanner_def io_bind_def io_return_def getLastScannedBlock_nofault
            Let_def)
  next
    case False
    obtain ts where sc: "scanForDeposits env (?last + 1) (height env - 1) s = (Inr ts, s)"
      using scanForDeposits_nofault [OF assms] by blast
    obtain n s2 where pl: "processLoop env ts 0 s = (Inr n, s2)" and f2: "faults s2 = []"
      using processLoop_nofault [OF assms] by blast
    obtain x where cl: "fst (confirmLoop env (findManyPending (db s2)) 0 0 s2) = Inr x"
      using confirmLoop_total by blast
    obtain a b where x: "x = (a, b)" by (cases x)
    obtain s3 where cl': "confirmLoop env (findManyPending (db s2)) 0 0 s2 = (Inr (a, b), s3)"
      using cl x by (cases "confirmLoop env (findManyPending (db s2)) 0 0 s2") auto
    from assms False sc pl f2 cl' show ?thesis
      by (simp add: runDepositScanner_def io_bind_def io_return_def getLastScannedBlock_nofault
            Let_def processDetectedTransfers_def processConfirmations_def)
  qed
qed

lemma runDepositScanner_raises:
  assumes "fst (runDepositScanner env s) = Inl e"
  shows "e = RpcError \<or> e = DbError"
proof -
  obtain r1 s1 where g: "getCurrentBlock env s = (r1, s1)" by (cases "getCurrentBlock env s")
  from getCurrentBlock_cases [OF g] have r1: "r1 = Inl RpcError \<or> r1 = Inr (height env)" by auto
  from r1 show ?thesis
  proof
    assume "r1 = Inl RpcError"
    with assms g show ?thesis by (simp add: runDepositScanner_def io_bind_def)
  next
    assume a1: "r1 = Inr (height env)"
    obtain r2 s2 where l: "getLastScannedBlock env s1 = (r2, s2)"
      by (cases "getLastScannedBlock env s1")
    show ?thesis
    proof (cases r2)
      case (Inl e2)
      with getLastScannedBlock_cases [OF l] have "e2 = DbError \<or> e2 = RpcError" by auto
      with assms g a1 l Inl show ?thesis by (auto simp: runDepositScanner_def io_bind_def)
    next
      case (Inr last)
      show ?thesis
      proof (cases "last + 1 \<ge> height env - 1")
        case True
        with assms g a1 l Inr show ?thesis
          by (simp add: runDepositScanner_def io_bind_def io_return_def Let_def)
      next
        case False
        obtain ts s3 where sc: "scanForDeposits env (last + 1) (height env - 1) s2 = (Inr ts, s3)"
          using scanForDeposits_total [of env "last + 1" "height env - 1" s2]
          by (cases "scanForDeposits env (last + 1) (height env - 1) s2") auto
        obtain n s4 where pl: "processDetectedTransfers env ts s3 = (Inr n, s4)"
          using processLoop_total [of env ts 0 s3]
          by (cases "processDetectedTransfers env ts s3") (auto simp: processDetectedTransfers_def)
        obtain r5 s5 where pc: "processConfirmations env s4 = (r5, s5)"
          by (cases "processConfirmations env s4")
        show ?thesis
        proof (cases r5)
          case (Inl e5)
          with pc processConfirmations_raises [of env s4 e5]
          have pr: "fst (prismaRead findManyPending s4) = Inl e5" by simp
          obtain r6 s6 where p6: "prismaRead findManyPending s4 = (r6, s6)"
            by (cases "prismaRead findManyPending s4")
          from prismaRead_cases [OF p6] pr p6 have "e5 = DbError" by auto
          with assms g a1 l Inr False sc pl pc Inl show ?thesis
            by (simp add: runDepositScanner_def io_bind_def io_return_def Let_def)
        next
          case (Inr p)
          obtain a b where "p = (a, b)" by (cases p)
          with assms g a1 l \<open>r2 = Inr last\<close> False sc pl pc Inr show ?thesis
            by (simp add: runDepositScanner_def io_bind_def io_return_def Let_def)
        qed
      qed
    qed
  qed
qed

subsection \<open>The rows that an action keeps\<close>

lemma rowKept_refl [simp]: "rowKept I t t"
  by (simp add: rowKept_def)

lemma rowKept_trans: "rowKept I a b \<Longrightarrow> rowKept J b c \<Longrightarrow> rowKept (I \<union> J) a c"
  by (auto simp: rowKept_def)

lemma rowKept_mono: "I \<subseteq> J \<Longrightarrow> rowKept I a b \<Longrightarrow> rowKept J a b"
  by (auto simp: rowKept_def)

lemma rows_refl [simp]: "list_all2 (rowKept I) xs xs"
  by (simp add: list_all2_refl)

lemma rows_trans:
  "list_all2 (rowKept I) xs ys \<Longrightarrow> list_all2 (rowKept J) ys zs \<Longrightarrow>
     list_all2 (rowKept (I \<union> J)) xs zs"
  using list_all2_trans [of "rowKept I" "rowKept J" "rowKept (I \<union> J)" xs ys zs] rowKept_trans
  by blast

lemma rows_mono: "I \<subseteq> J \<Longrightarrow> list_all2 (rowKept I) xs ys \<Longrightarrow> list_all2 (rowKept J) xs ys"
  using list_all2_mono [of "rowKept I" xs ys "rowKept J"] rowKept_mono by blast

lemma rows_map:
  assumes "\<And>t. tx_id (f t) = tx_id t \<and> txHash (f t) = txHash t \<and> logIndex (f t) = logIndex t \<and>
             blockNumber (f t) = blockNumber t"
  shows "list_all2 (rowKept {i}) xs (map (\<lambda>t. if tx_id t = i then f t else t) xs)"
  using assms by (induction xs) (auto simp: rowKept_def)

lemma keepsRowsI:
  "(\<And>s r s'. m s = (r, s') \<Longrightarrow>
      list_all2 (rowKept I) (onchainTransaction (db s)) (onchainTransaction (db s'))) \<Longrightarrow>
   keepsRows I m"
  by (simp add: keepsRows_def)

lemma keepsRowsD:
  "keepsRows I m \<Longrightarrow> m s = (r, s') \<Longrightarrow>
     list_all2 (rowKept I) (onchainTransaction (db s)) (onchainTransaction (db s'))"
  by (simp add: keepsRows_def)

lemma keepsRows_mono: "I \<subseteq> J \<Longrightarrow> keepsRows I m \<Longrightarrow> keepsRows J m"
  by (auto simp: keepsRows_def intro: rows_mono)

lemma keepsRows_return [simp]: "keepsRows I (io_return x)"
  by (simp add: keepsRows_def io_return_def)

lemma keepsRows_bind:
  assumes "keepsRows I m" and "\<And>x. keepsRows I (f x)"
  shows "keepsRows I (io_bind m f)"
proof (rule keepsRowsI)
  fix s r s' assume b: "io_bind m f s = (r, s')"
  obtain r1 s1 where m: "m s = (r1, s1)" by (cases "m s")
  note k1 = keepsRowsD [OF assms(1) m]
  show "list_all2 (rowKept I) (onchainTransaction (db s)) (onchainTransaction (db s'))"
  proof (cases r1)
    case (Inl e)
    with b m k1 show ?thesis by (simp add: io_bind_def)
  next
    case (Inr x)
    with b m have "f x s1 = (r, s')" by (simp add: io_bind_def)
    from rows_trans [OF k1 keepsRowsD [OF assms(2) this]] show ?thesis by simp
  qed
qed

lemma keepsRows_catch:
  assumes "keepsRows I m" and "\<And>e. keepsRows I (h e)"
  shows "keepsRows I (io_catch m h)"
proof (rule keepsRowsI)
  fix s r s' assume b: "io_catch m h s = (r, s')"
  obtain r1 s1 where m: "m s = (r1, s1)" by (cases "m s")
  note k1 = keepsRowsD [OF assms(1) m]
  show "list_all2 (rowKept I) (onchainTransaction (db s)) (onchainTransaction (db s'))"
  proof (cases r1)
    case (Inr x)
    with b m k1 show ?thesis by (simp add: io_catch_def)
  next
    case (Inl e)
    with b m have "h e s1 = (r, s')" by (simp add: io_catch_def)
    from rows_trans [OF k1 keepsRowsD [OF assms(2) this]] show ?thesis by simp
  qed
qed

lemma keepsRows_await [simp]: "keepsRows I (await_ext e)"
  by (rule keepsRowsI) (auto dest: await_ext_cases)

lemma keepsRows_read [simp]: "keepsRows I (prismaRead q)"
  by (rule keepsRowsI) (auto dest: prismaRead_cases)

lemma keepsRows_write:
  assumes "\<And>d d'. w d = Inr d' \<Longrightarrow>
             list_all2 (rowKept I) (onchainTransaction d) (onchainTransaction d')"
  shows "keepsRows I (prismaWrite w)"
proof (rule keepsRowsI)
  fix s r s' assume "prismaWrite w s = (r, s')"
  from prismaWrite_cases [OF this] assms
  show "list_all2 (rowKept I) (onchainTransaction (db s)) (onchainTransaction (db s'))"
    by auto
qed

lemma keepsRows_getCurrentBlock [simp]: "keepsRows I (getCurrentBlock env)"
  by (rule keepsRowsI) (auto dest: getCurrentBlock_cases)

lemma updateOnchainTransaction_rows:
  assumes "updateOnchainTransaction i f d = Inr d'"
    and "\<And>t. tx_id (f t) = tx_id t \<and> txHash (f t) = txHash t \<and> logIndex (f t) = logIndex t \<and>
             blockNumber (f t) = blockNumber t"
  shows "list_all2 (rowKept {i}) (onchainTransaction d) (onchainTransaction d')"
  using assms(1) rows_map [of f i "onchainTransaction d", OF assms(2)]
  by (auto simp: updateOnchainTransaction_def split: if_splits)

lemma credited_rows:
  "list_all2 (rowKept {tx_id tx}) (onchainTransaction d) (onchainTransaction (credited env tx u d))"
  using rows_map [of "\<lambda>t. t\<lparr>status := CREDITED, creditedAt := Some (now env)\<rparr>" "tx_id tx"
      "onchainTransaction d"]
  by (simp add: credited_def)

lemma keepsRows_creditUserDeposit: "keepsRows {i} (creditUserDeposit env i)"
proof (rule keepsRowsI)
  fix s r s' assume c: "creditUserDeposit env i s = (r, s')"
  from creditUserDeposit_result [OF c]
  show "list_all2 (rowKept {i}) (onchainTransaction (db s)) (onchainTransaction (db s'))"
  proof
    assume "r \<noteq> Inr True \<and> db s' = db s"
    then show ?thesis by simp
  next
    assume "r = Inr True \<and>
          (\<exists>tx u. findUniqueTx i (db s) = Some tx \<and> status tx \<noteq> CREDITED \<and>
                  resolveUser tx (db s) = Some u \<and>
                  applyWrites (creditWrites env tx u) (db s) = Inr (db s'))"
    then obtain tx u where ftx: "findUniqueTx i (db s) = Some tx"
      and ap: "applyWrites (creditWrites env tx u) (db s) = Inr (db s')" by blast
    from creditWrites_effect(1) [OF ap] findUniqueTx_id [OF ftx] credited_rows [of tx "db s" env u]
    show ?thesis by simp
  qed
qed

lemma keepsRows_confirmOne: "keepsRows {tx_id tx} (confirmOne env tx)"
  unfolding confirmOne_def getConfirmations_def
  by (intro keepsRows_catch keepsRows_bind keepsRows_write keepsRows_return
        keepsRows_getCurrentBlock keepsRows_creditUserDeposit updateOnchainTransaction_rows
        | simp | rule conjI impI)+

lemma keepsRows_confirmLoop: "keepsRows (tx_id ` set txs) (confirmLoop env txs u c)"
proof (induction txs arbitrary: u c)
  case Nil
  then show ?case by simp
next
  case (Cons tx txs)
  let ?I = "insert (tx_id tx) (tx_id ` set txs)"
  have a: "keepsRows ?I (confirmOne env tx)"
    by (rule keepsRows_mono [OF _ keepsRows_confirmOne]) simp
  have b: "\<And>u c. keepsRows ?I (confirmLoop env txs u c)"
    by (rule keepsRows_mono [OF _ Cons.IH]) auto
  have "keepsRows ?I (confirmLoop env (tx # txs) u c)"
    by (simp only: confirmLoop.simps) (intro keepsRows_bind a, auto intro: b)
  then show ?case by simp
qed

lemma rows_ids: "list_all2 (rowKept I) xs ys \<Longrightarrow> map tx_id ys = map tx_id xs"
  by (induction rule: list_all2_induct) (auto simp: rowKept_def)

lemma rows_keys: "list_all2 (rowKept I) xs ys \<Longrightarrow> map txKey ys = map txKey xs"
  by (induction rule: list_all2_induct) (auto simp: rowKept_def txKey_def)

lemma rows_blocks: "list_all2 (rowKept I) xs ys \<Longrightarrow> map blockNumber ys = map blockNumber xs"
  by (induction rule: list_all2_induct) (auto simp: rowKept_def)

lemma keepsRows_processConfirmations: "keepsRows UNIV (processConfirmations env)"
  unfolding processConfirmations_def
  by (intro keepsRows_bind keepsRows_read keepsRows_mono [OF _ keepsRows_confirmLoop]) simp

lemma processConfirmations_rows:
  assumes "processConfirmations env s = (r, s')"
  shows "list_all2 (rowKept (tx_id ` set (findManyPending (db s))))
           (onchainTransaction (db s)) (onchainTransaction (db s'))"
proof -
  obtain r1 s1 where p: "prismaRead findManyPending s = (r1, s1)"
    by (cases "prismaRead findManyPending s")
  from prismaRead_cases [OF p] have d1: "db s1 = db s"
    and r1: "r1 = Inl DbError \<or> r1 = Inr (findManyPending (db s))" by auto
  from r1 show ?thesis
  proof
    assume "r1 = Inl DbError"
    with assms p d1 show ?thesis by (simp add: processConfirmations_def io_bind_def)
  next
    assume "r1 = Inr (findManyPending (db s))"
    with assms p have "confirmLoop env (findManyPending (db s)) 0 0 s1 = (r, s')"
      by (simp add: processConfirmations_def io_bind_def)
    from keepsRowsD [OF keepsRows_confirmLoop this] d1 show ?thesis by simp
  qed
qed

lemma distinct_ids_same:
  "distinct (map tx_id xs) \<Longrightarrow> a \<in> set xs \<Longrightarrow> b \<in> set xs \<Longrightarrow> tx_id a = tx_id b \<Longrightarrow> a = b"
  by (meson distinct_map inj_onD)

lemma rows_settled_unchanged:
  assumes k: "list_all2 (rowKept (tx_id ` set (findManyPending d))) (onchainTransaction d) ys"
    and dist: "distinct (map tx_id (onchainTransaction d))"
  shows "list_all2 (\<lambda>t t'. status t \<noteq> PENDING \<and> status t \<noteq> CONFIRMING \<longrightarrow> t' = t)
           (onchainTransaction d) ys"
proof -
  have "\<And>t t'. t \<in> set (onchainTransaction d) \<Longrightarrow>
          rowKept (tx_id ` set (findManyPending d)) t t' \<Longrightarrow>
          status t \<noteq> PENDING \<and> status t \<noteq> CONFIRMING \<longrightarrow> t' = t"
  proof
    fix t t' assume t: "t \<in> set (onchainTransaction d)"
      and r: "rowKept (tx_id ` set (findManyPending d)) t t'"
      and s: "status t \<noteq> PENDING \<and> status t \<noteq> CONFIRMING"
    have "tx_id t \<notin> tx_id ` set (findManyPending d)"
    proof
      assume "tx_id t \<in> tx_id ` set (findManyPending d)"
      then obtain p where p: "p \<in> set (findManyPending d)" and e: "tx_id t = tx_id p" by auto
      from p have pm: "p \<in> set (onchainTransaction d)"
        and ps: "status p = PENDING \<or> status p = CONFIRMING"
        by (auto simp: findManyPending_def)
      from distinct_ids_same [OF dist t pm e] have "t = p" .
      with s ps show False by simp
    qed
    with r show "t' = t" by (simp add: rowKept_def)
  qed
  with k show ?thesis
    by (auto simp: list_all2_conv_all_nth)
qed

lemma io_bind_return_left [simp]: "io_bind (io_return x) f = f x"
  by (rule ext) (simp add: io_bind_def io_return_def)

lemma scanForDeposits_unconfigured:
  "\<not> addressConfigured env \<Longrightarrow> scanForDeposits env a b = io_return []"
  by (auto simp: addressConfigured_def scanForDeposits_def split: option.splits)

lemma processDetectedTransfers_Nil [simp]: "processDetectedTransfers env [] = io_return 0"
  by (rule ext) (simp add: processDetectedTransfers_def)

lemma keepsRows_getLastScannedBlock [simp]: "keepsRows I (getLastScannedBlock env)"
  by (rule keepsRowsI) (auto dest: getLastScannedBlock_cases)

lemma keepsRows_unconfigured_pass:
  assumes "\<not> addressConfigured env"
  shows "keepsRows UNIV (runDepositScanner env)"
  unfolding runDepositScanner_def Let_def
  by (intro keepsRows_bind keepsRows_getCurrentBlock keepsRows_getLastScannedBlock)
     (auto simp: scanForDeposits_unconfigured [OF assms] split: prod.splits
        intro!: keepsRows_bind keepsRows_processConfirmations)

lemma unconfigured_newDeposits:
  assumes u: "\<not> addressConfigured env" and r: "runDepositScanner env s = (Inr st, s')"
  shows "newDeposits st = 0"
proof -
  obtain r1 s1 where g: "getCurrentBlock env s = (r1, s1)" by (cases "getCurrentBlock env s")
  obtain r2 s2 where l: "getLastScannedBlock env s1 = (r2, s2)"
    by (cases "getLastScannedBlock env s1")
  show ?thesis
  proof (cases r1)
    case (Inl e)
    with r g show ?thesis by (simp add: runDepositScanner_def io_bind_def)
  next
    case (Inr cur)
    note c = this
    show ?thesis
    proof (cases r2)
      case (Inl e)
      with r g c l show ?thesis by (simp add: runDepositScanner_def io_bind_def)
    next
      case (Inr last)
      show ?thesis
      proof (cases "last + 1 \<ge> cur - 1")
        case True
        with r g c l Inr show ?thesis
          by (auto simp: runDepositScanner_def io_bind_def io_return_def Let_def)
      next
        case False
        obtain r3 s3 where p: "processConfirmations env s2 = (r3, s3)"
          by (cases "processConfirmations env s2")
        from r g c l Inr False p show ?thesis
          by (auto simp: runDepositScanner_def io_bind_def io_return_def Let_def
                scanForDeposits_unconfigured [OF u] split: sum.splits prod.splits)
      qed
    qed
  qed
qed

subsection \<open>The effect of the tracker\<close>

lemma creditUserDeposit_quiet:
  "faults s = [] \<Longrightarrow> faults (snd (creditUserDeposit env i s)) = []"
  by (simp add: creditUserDeposit_nofault creditCommit_nofault split: option.splits sum.splits)

lemma rows_outside:
  assumes "list_all2 (rowKept I) xs ys" and "t' \<in> set ys" and "tx_id t' \<notin> I"
  shows "t' \<in> set xs"
proof -
  from assms(2) obtain n where n: "n < length ys" and t: "ys ! n = t'"
    by (auto simp: in_set_conv_nth)
  from assms(1) n have l: "length xs = length ys" and r: "rowKept I (xs ! n) (ys ! n)"
    by (auto simp: list_all2_conv_all_nth)
  from r t assms(3) have "ys ! n = xs ! n" by (auto simp: rowKept_def)
  with n l t show ?thesis by (metis nth_mem)
qed

lemma getConfirmations_nofault:
  "faults s = [] \<Longrightarrow> getConfirmations env b s = (Inr (height env - b), s)"
  by (simp add: getConfirmations_def io_bind_def io_return_def)

lemma updateOnchainTransaction_hit:
  "\<exists>t \<in> set (onchainTransaction d). tx_id t = i \<Longrightarrow>
     updateOnchainTransaction i f d =
       Inr (d\<lparr>onchainTransaction := map (\<lambda>t. if tx_id t = i then f t else t) (onchainTransaction d)\<rparr>)"
  by (simp add: updateOnchainTransaction_def)

lemma confirmOne_unfold:
  assumes g: "getConfirmations env (blockNumber tx) s = (Inr c, s0)"
    and w: "prismaWrite (updateOnchainTransaction (tx_id tx)
               (\<lambda>t. t\<lparr>confirmations := c, status := newStatus (status tx) c\<rparr>)) s0 = (Inr (), s1)"
  shows "confirmOne env tx s =
    (if newStatus (status tx) c = CONFIRMED \<and> status tx \<noteq> CREDITED
     then (case creditUserDeposit env (tx_id tx) s1 of
             (Inl e, s2) \<Rightarrow> (Inr (True, False), s2)
           | (Inr b, s2) \<Rightarrow> (Inr (True, b), s2))
     else (Inr (True, False), s1))"
  unfolding confirmOne_def
  by (simp add: io_catch_def io_bind_def io_return_def g w split: prod.splits sum.splits)

lemma confirmOne_effect:
  assumes nf: "faults s = []"
    and ex: "\<exists>t \<in> set (onchainTransaction (db s)). tx_id t = tx_id tx"
  shows "\<exists>r s'. confirmOne env tx s = (Inr r, s') \<and> faults s' = [] \<and>
           (\<forall>t' \<in> set (onchainTransaction (db s')). tx_id t' = tx_id tx \<longrightarrow> tracked env tx t')"
proof -
  define c where "c = height env - blockNumber tx"
  define ns where "ns = newStatus (status tx) c"
  define f where "f = (\<lambda>t::onchain_tx. t\<lparr>confirmations := c, status := ns\<rparr>)"
  define rows1 where
    "rows1 = map (\<lambda>t. if tx_id t = tx_id tx then f t else t) (onchainTransaction (db s))"
  define s1 where "s1 = s\<lparr>db := (db s)\<lparr>onchainTransaction := rows1\<rparr>\<rparr>"
  have g: "getConfirmations env (blockNumber tx) s = (Inr c, s)"
    using nf by (simp add: getConfirmations_nofault c_def)
  have u: "updateOnchainTransaction (tx_id tx) f (db s) = Inr ((db s)\<lparr>onchainTransaction := rows1\<rparr>)"
    using ex by (simp only: updateOnchainTransaction_hit rows1_def)
  have w: "prismaWrite (updateOnchainTransaction (tx_id tx) f) s = (Inr (), s1)"
    using nf by (simp add: prismaWrite_nofault u s1_def)
  have f1: "faults s1 = []" using nf by (simp add: s1_def)
  have d1: "onchainTransaction (db s1) = rows1" by (simp add: s1_def)
  have q1: "\<forall>t' \<in> set rows1. tx_id t' = tx_id tx \<longrightarrow> confirmations t' = c \<and> status t' = ns"
    by (auto simp: rows1_def f_def)
  have unf: "confirmOne env tx s =
    (if ns = CONFIRMED \<and> status tx \<noteq> CREDITED
     then (case creditUserDeposit env (tx_id tx) s1 of
             (Inl e, s2) \<Rightarrow> (Inr (True, False), s2)
           | (Inr b, s2) \<Rightarrow> (Inr (True, b), s2))
     else (Inr (True, False), s1))"
    using confirmOne_unfold [OF g, of s1] w by (simp only: f_def ns_def)
  show ?thesis
  proof (cases "ns = CONFIRMED \<and> status tx \<noteq> CREDITED")
    case False
    with unf have "confirmOne env tx s = (Inr (True, False), s1)" by simp
    moreover have "\<forall>t' \<in> set (onchainTransaction (db s1)). tx_id t' = tx_id tx \<longrightarrow> tracked env tx t'"
      using q1 by (simp add: d1 tracked_def c_def ns_def)
    ultimately show ?thesis using f1 by blast
  next
    case True
    obtain r2 s2 where cr: "creditUserDeposit env (tx_id tx) s1 = (r2, s2)"
      by (cases "creditUserDeposit env (tx_id tx) s1")
    have f2: "faults s2 = []" using creditUserDeposit_quiet [OF f1, of env "tx_id tx"] cr by simp
    have q2: "\<forall>t' \<in> set (onchainTransaction (db s2)). tx_id t' = tx_id tx \<longrightarrow> tracked env tx t'"
      using creditUserDeposit_result [OF cr]
    proof
      assume "r2 \<noteq> Inr True \<and> db s2 = db s1"
      with q1 show ?thesis by (simp add: d1 tracked_def c_def ns_def)
    next
      assume "r2 = Inr True \<and>
          (\<exists>t u. findUniqueTx (tx_id tx) (db s1) = Some t \<and> status t \<noteq> CREDITED \<and>
                  resolveUser t (db s1) = Some u \<and>
                  applyWrites (creditWrites env t u) (db s1) = Inr (db s2))"
      then obtain t u where ft: "findUniqueTx (tx_id tx) (db s1) = Some t"
        and ap: "applyWrites (creditWrites env t u) (db s1) = Inr (db s2)" by blast
      have d2: "db s2 = credited env t u (db s1)" by (rule creditWrites_effect(1) [OF ap])
      have rows2: "onchainTransaction (db s2) =
          map (\<lambda>x. if tx_id x = tx_id tx
                   then x\<lparr>status := CREDITED, creditedAt := Some (now env)\<rparr> else x) rows1"
        using findUniqueTx_id [OF ft] by (simp add: d2 credited_def d1)
      have "\<forall>t' \<in> set (onchainTransaction (db s2)). tx_id t' = tx_id tx \<longrightarrow>
               confirmations t' = c \<and> status t' = CREDITED"
        using q1 by (auto simp: rows2)
      with True show ?thesis by (simp add: tracked_def c_def ns_def)
    qed
    from unf True cr have "\<exists>r. confirmOne env tx s = (Inr r, s2)"
      by (cases r2) auto
    with f2 q2 show ?thesis by blast
  qed
qed

lemma confirmLoop_effect:
  assumes "faults s = []" and "distinct (map tx_id txs)"
    and "\<forall>tx \<in> set txs. \<exists>t \<in> set (onchainTransaction (db s)). tx_id t = tx_id tx"
  shows "\<exists>r s'. confirmLoop env txs u c s = (Inr r, s') \<and>
           (\<forall>tx \<in> set txs. \<forall>t' \<in> set (onchainTransaction (db s')).
               tx_id t' = tx_id tx \<longrightarrow> tracked env tx t')"
  using assms
proof (induction txs arbitrary: s u c)
  case Nil
  then show ?case by (simp add: io_return_def)
next
  case (Cons tx txs)
  from Cons.prems(3) have ex: "\<exists>t \<in> set (onchainTransaction (db s)). tx_id t = tx_id tx" by simp
  from confirmOne_effect [OF Cons.prems(1) ex, of env]
  obtain a b s1 where c1: "confirmOne env tx s = (Inr (a, b), s1)" and f1: "faults s1 = []"
    and q1: "\<forall>t' \<in> set (onchainTransaction (db s1)). tx_id t' = tx_id tx \<longrightarrow> tracked env tx t'"
    by auto
  have ids1: "map tx_id (onchainTransaction (db s1)) = map tx_id (onchainTransaction (db s))"
    by (rule rows_ids [OF keepsRowsD [OF keepsRows_confirmOne c1]])
  have ex1: "\<forall>x \<in> set txs. \<exists>t \<in> set (onchainTransaction (db s1)). tx_id t = tx_id x"
  proof
    fix x assume "x \<in> set txs"
    with Cons.prems(3) obtain t0 where "t0 \<in> set (onchainTransaction (db s))" "tx_id t0 = tx_id x"
      by auto
    then have "tx_id x \<in> tx_id ` set (onchainTransaction (db s))" by (metis imageI)
    then have "tx_id x \<in> set (map tx_id (onchainTransaction (db s)))" by simp
    with ids1 have "tx_id x \<in> set (map tx_id (onchainTransaction (db s1)))" by simp
    then show "\<exists>t \<in> set (onchainTransaction (db s1)). tx_id t = tx_id x" by auto
  qed
  from Cons.prems(2) have d: "distinct (map tx_id txs)" and n: "tx_id tx \<notin> tx_id ` set txs"
    by auto
  let ?u = "if a then u + 1 else u" and ?c = "if b then c + 1 else c"
  from Cons.IH [OF f1 d ex1, of ?u ?c]
  obtain r s' where l: "confirmLoop env txs ?u ?c s1 = (Inr r, s')"
    and q: "\<forall>x \<in> set txs. \<forall>t' \<in> set (onchainTransaction (db s')).
               tx_id t' = tx_id x \<longrightarrow> tracked env x t'" by blast
  note k = keepsRowsD [OF keepsRows_confirmLoop l]
  have qtx: "\<forall>t' \<in> set (onchainTransaction (db s')). tx_id t' = tx_id tx \<longrightarrow> tracked env tx t'"
  proof (intro ballI impI)
    fix t' assume m: "t' \<in> set (onchainTransaction (db s'))" and e: "tx_id t' = tx_id tx"
    with n have "tx_id t' \<notin> tx_id ` set txs" by simp
    from rows_outside [OF k m this] have "t' \<in> set (onchainTransaction (db s1))" .
    with q1 e show "tracked env tx t'" by simp
  qed
  have "confirmLoop env (tx # txs) u c s = (Inr r, s')"
    using c1 l by (simp add: io_bind_def)
  with q qtx show ?case by auto
qed

lemma processConfirmations_effect:
  assumes nf: "faults s = []" and dist: "distinct (map tx_id (onchainTransaction (db s)))"
    and t: "t \<in> set (onchainTransaction (db s))"
    and st: "status t = PENDING \<or> status t = CONFIRMING"
  shows "(\<exists>t' \<in> set (onchainTransaction (db (snd (processConfirmations env s)))). tx_id t' = tx_id t) \<and>
         (\<forall>t' \<in> set (onchainTransaction (db (snd (processConfirmations env s)))).
             tx_id t' = tx_id t \<longrightarrow> tracked env t t')"
proof -
  let ?txs = "findManyPending (db s)"
  have d: "distinct (map tx_id ?txs)"
    using dist by (simp add: findManyPending_def distinct_map_filter)
  have ex: "\<forall>tx \<in> set ?txs. \<exists>x \<in> set (onchainTransaction (db s)). tx_id x = tx_id tx"
    by (auto simp: findManyPending_def)
  from confirmLoop_effect [OF nf d ex, of env 0 0]
  obtain r s' where l: "confirmLoop env ?txs 0 0 s = (Inr r, s')"
    and q: "\<forall>tx \<in> set ?txs. \<forall>t' \<in> set (onchainTransaction (db s')).
               tx_id t' = tx_id tx \<longrightarrow> tracked env tx t'" by blast
  have p: "processConfirmations env s = (Inr r, s')"
    using nf l by (simp add: processConfirmations_def io_bind_def)
  have tm: "t \<in> set ?txs" using t st by (auto simp: findManyPending_def)
  have ids: "map tx_id (onchainTransaction (db s')) = map tx_id (onchainTransaction (db s))"
    by (rule rows_ids [OF keepsRowsD [OF keepsRows_confirmLoop l]])
  from t have "tx_id t \<in> set (map tx_id (onchainTransaction (db s)))" by auto
  with ids have "tx_id t \<in> set (map tx_id (onchainTransaction (db s')))" by simp
  then have "\<exists>t' \<in> set (onchainTransaction (db s')). tx_id t' = tx_id t" by auto
  with q tm p show ?thesis by auto
qed

lemma newStatus_cases:
  "(c < 6 \<longrightarrow> newStatus old c = old) \<and>
   (6 \<le> c \<and> c < confirmationThreshold \<longrightarrow> newStatus old c = CONFIRMING) \<and>
   (confirmationThreshold \<le> c \<longrightarrow> newStatus old c = CONFIRMED) \<and> confirmationThreshold = 12"
  by (simp add: newStatus_def confirmationThreshold_def)

subsection \<open>Recording, and the pass as a whole\<close>

lemma findFirstTxByKey_None:
  "findFirstTxByKey h i d = None \<longleftrightarrow> (h, i) \<notin> txKey ` set (onchainTransaction d)"
  by (auto simp: findFirstTxByKey_def find_None_iff txKey_def)

lemma updateDepositIntent_table:
  "updateDepositIntent i st d = Inr d' \<Longrightarrow>
     onchainTransaction d' = onchainTransaction d \<and> nextId d' = nextId d"
  by (auto simp: updateDepositIntent_def split: if_splits)

lemma intent_tail_table:
  assumes "io_bind (case intent of
                     Some i \<Rightarrow> prismaWrite (updateDepositIntent (intent_id i) INTENT_DETECTED)
                   | None \<Rightarrow> io_return ()) (\<lambda>_. io_return True) s = (r, s')"
  shows "onchainTransaction (db s') = onchainTransaction (db s) \<and> nextId (db s') = nextId (db s)"
proof (cases intent)
  case None
  with assms show ?thesis by (simp add: io_bind_def io_return_def)
next
  case (Some i)
  obtain r1 s1 where w: "prismaWrite (updateDepositIntent (intent_id i) INTENT_DETECTED) s = (r1, s1)"
    by (cases "prismaWrite (updateDepositIntent (intent_id i) INTENT_DETECTED) s")
  from prismaWrite_cases [OF w] updateDepositIntent_table
  have "onchainTransaction (db s1) = onchainTransaction (db s) \<and> nextId (db s1) = nextId (db s)"
    by auto
  moreover from assms Some w have "s' = s1"
    by (cases r1) (auto simp: io_bind_def io_return_def)
  ultimately show ?thesis by simp
qed

lemma processTransfer_step:
  assumes p: "processTransfer env t s = (r, s')"
  shows "(r \<noteq> Inr True \<and> onchainTransaction (db s') = onchainTransaction (db s) \<and>
            nextId (db s') = nextId (db s)) \<or>
         (detectedKey t \<notin> txKey ` set (onchainTransaction (db s)) \<and>
          (\<exists>n. onchainTransaction (db s') = onchainTransaction (db s) @ [n] \<and>
               tx_id n = nextId (db s) \<and> txKey n = detectedKey t \<and> status n = PENDING) \<and>
          nextId (db s') = Suc (nextId (db s)))"
proof -
  let ?q1 = "findFirstTxByKey (d_txHash t) (d_logIndex t)"
  obtain r1 s1 where a1: "prismaRead ?q1 s = (r1, s1)" by (cases "prismaRead ?q1 s")
  from prismaRead_cases [OF a1] have d1: "db s1 = db s" and r1: "r1 = Inl DbError \<or> r1 = Inr (?q1 (db s))"
    by auto
  from r1 show ?thesis
  proof
    assume "r1 = Inl DbError"
    with p a1 d1 show ?thesis by (auto simp: processTransfer_def io_bind_def)
  next
    assume e1: "r1 = Inr (?q1 (db s))"
    show ?thesis
    proof (cases "?q1 (db s)")
      case (Some x)
      with p a1 e1 d1 show ?thesis by (auto simp: processTransfer_def io_bind_def io_return_def)
    next
      case None
      then have fresh: "detectedKey t \<notin> txKey ` set (onchainTransaction (db s))"
        by (simp add: findFirstTxByKey_None detectedKey_def)
      let ?q2 = "findPendingIntent (d_fromAddress t)"
      obtain r2 s2 where a2: "prismaRead ?q2 s1 = (r2, s2)" by (cases "prismaRead ?q2 s1")
      from prismaRead_cases [OF a2] d1 have d2: "db s2 = db s" by simp
      show ?thesis
      proof (cases r2)
        case (Inl e)
        with p a1 e1 None a2 d2 show ?thesis by (auto simp: processTransfer_def io_bind_def)
      next
        case (Inr intent)
        let ?w = "createOnchainTransaction t (numberToDecimal env (parseFloat (d_amount t)))
                    (map_option intent_id intent)"
        obtain r3 s3 where a3: "prismaWrite ?w s2 = (r3, s3)" by (cases "prismaWrite ?w s2")
        show ?thesis
        proof (cases r3)
          case (Inl e)
          with prismaWrite_cases [OF a3] d2 have "db s3 = db s" by auto
          with p a1 e1 None a2 Inr a3 Inl show ?thesis
            by (auto simp: processTransfer_def io_bind_def)
        next
          case (Inr u)
          with prismaWrite_cases [OF a3] have c: "?w (db s2) = Inr (db s3)" by auto
          let ?tail = "io_bind (case intent of
                     Some i \<Rightarrow> prismaWrite (updateDepositIntent (intent_id i) INTENT_DETECTED)
                   | None \<Rightarrow> io_return ()) (\<lambda>_. io_return True)"
          from p a1 e1 None a2 \<open>r2 = Inr intent\<close> a3 Inr have "?tail s3 = (r, s')"
            by (simp add: processTransfer_def io_bind_def)
          from intent_tail_table [OF this]
          have t: "onchainTransaction (db s') = onchainTransaction (db s3) \<and>
                   nextId (db s') = nextId (db s3)" .
          define n where "n =
            \<lparr>tx_id = nextId (db s), txHash = d_txHash t, logIndex = d_logIndex t,
              fromAddress = d_fromAddress t, toAddress = d_toAddress t,
              amount = numberToDecimal env (parseFloat (d_amount t)),
              blockNumber = d_blockNumber t, confirmations = 0, status = PENDING,
              depositIntentId = map_option intent_id intent, creditedAt = None\<rparr>"
          from c d2 have c': "db s3 = (db s)\<lparr>onchainTransaction := onchainTransaction (db s) @ [n],
                                           nextId := Suc (nextId (db s))\<rparr>"
            by (simp add: createOnchainTransaction_def n_def)
          have "onchainTransaction (db s3) = onchainTransaction (db s) @ [n] \<and>
               tx_id n = nextId (db s) \<and> txKey n = detectedKey t \<and> status n = PENDING"
            by (simp add: c' n_def txKey_def detectedKey_def)
          moreover have "nextId (db s3) = Suc (nextId (db s))" by (simp add: c')
          ultimately show ?thesis using t fresh by auto
        qed
      qed
    qed
  qed
qed

lemma processTransfer_recorded:
  assumes "detectedKey t \<in> txKey ` set (onchainTransaction (db s))"
    and p: "processTransfer env t s = (r, s')"
  shows "r \<noteq> Inr True \<and> db s' = db s"
proof -
  let ?q1 = "findFirstTxByKey (d_txHash t) (d_logIndex t)"
  from assms(1) obtain x where x: "?q1 (db s) = Some x"
    using findFirstTxByKey_None [of "d_txHash t" "d_logIndex t" "db s"]
    by (cases "?q1 (db s)") (auto simp: detectedKey_def)
  obtain r1 s1 where a1: "prismaRead ?q1 s = (r1, s1)" by (cases "prismaRead ?q1 s")
  from prismaRead_cases [OF a1] have d1: "db s1 = db s" and r1: "r1 = Inl DbError \<or> r1 = Inr (?q1 (db s))"
    by auto
  from r1 p a1 d1 x show ?thesis
    by (auto simp: processTransfer_def io_bind_def io_return_def)
qed

lemma catch_processTransfer:
  "\<exists>b s1. io_catch (processTransfer env t) (\<lambda>e. io_return False) s = (Inr b, s1) \<and>
     (\<exists>r. processTransfer env t s = (r, s1) \<and> (b \<longrightarrow> r = Inr True))"
  by (cases "processTransfer env t s")
     (auto simp: io_catch_def io_return_def split: sum.splits)

lemma processLoop_table:
  assumes "processLoop env ts k s = (r, s')"
  shows "(\<exists>new. onchainTransaction (db s') = onchainTransaction (db s) @ new) \<and>
         (distinct (map txKey (onchainTransaction (db s))) \<longrightarrow>
            distinct (map txKey (onchainTransaction (db s')))) \<and>
         (wfIds (db s) \<longrightarrow> wfIds (db s'))"
  using assms
proof (induction ts arbitrary: k s)
  case Nil
  then show ?case by (simp add: io_return_def)
next
  case (Cons t ts)
  from catch_processTransfer [of env t s]
  obtain b s1 r1 where c: "io_catch (processTransfer env t) (\<lambda>e. io_return False) s = (Inr b, s1)"
    and p: "processTransfer env t s = (r1, s1)" by blast
  from Cons.prems c have l: "processLoop env ts (if b then k + 1 else k) s1 = (r, s')"
    by (simp add: io_bind_def)
  note ih = Cons.IH [OF l]
  have step: "(\<exists>new. onchainTransaction (db s1) = onchainTransaction (db s) @ new) \<and>
         (distinct (map txKey (onchainTransaction (db s))) \<longrightarrow>
            distinct (map txKey (onchainTransaction (db s1)))) \<and>
         (wfIds (db s) \<longrightarrow> wfIds (db s1))"
    using processTransfer_step [OF p]
  proof
    assume "r1 \<noteq> Inr True \<and> onchainTransaction (db s1) = onchainTransaction (db s) \<and>
            nextId (db s1) = nextId (db s)"
    then show ?thesis by (simp add: wfIds_def)
  next
    assume a: "detectedKey t \<notin> txKey ` set (onchainTransaction (db s)) \<and>
          (\<exists>n. onchainTransaction (db s1) = onchainTransaction (db s) @ [n] \<and>
               tx_id n = nextId (db s) \<and> txKey n = detectedKey t \<and> status n = PENDING) \<and>
          nextId (db s1) = Suc (nextId (db s))"
    then obtain n where n: "onchainTransaction (db s1) = onchainTransaction (db s) @ [n]"
      and i: "tx_id n = nextId (db s)" and key: "txKey n = detectedKey t"
      and nx: "nextId (db s1) = Suc (nextId (db s))" by blast
    from a key have kf: "txKey n \<notin> txKey ` set (onchainTransaction (db s))" by simp
    have w: "wfIds (db s) \<longrightarrow> wfIds (db s1)"
      using n i nx by (auto simp: wfIds_def less_Suc_eq)
    from n kf w show ?thesis by auto
  qed
  from step ih show ?case by auto
qed

lemma processLoop_recorded:
  assumes "\<forall>t \<in> set ts. detectedKey t \<in> txKey ` set (onchainTransaction (db s))"
    and "processLoop env ts k s = (r, s')"
  shows "r = Inr k \<and> db s' = db s"
  using assms
proof (induction ts arbitrary: s)
  case Nil
  then show ?case by (simp add: io_return_def)
next
  case (Cons t ts)
  from catch_processTransfer [of env t s]
  obtain b s1 r1 where c: "io_catch (processTransfer env t) (\<lambda>e. io_return False) s = (Inr b, s1)"
    and p: "processTransfer env t s = (r1, s1)" and b: "b \<longrightarrow> r1 = Inr True" by blast
  from Cons.prems(1) have "detectedKey t \<in> txKey ` set (onchainTransaction (db s))" by simp
  from processTransfer_recorded [OF this p] have r1: "r1 \<noteq> Inr True" and d1: "db s1 = db s"
    by auto
  from b r1 have nb: "\<not> b" by auto
  from Cons.prems(2) c nb have l: "processLoop env ts k s1 = (r, s')" by (simp add: io_bind_def)
  from Cons.prems(1) d1
  have "\<forall>t \<in> set ts. detectedKey t \<in> txKey ` set (onchainTransaction (db s1))" by simp
  from Cons.IH [OF this l] d1 show ?case by simp
qed

lemma scanForDeposits_db: "scanForDeposits env a b s = (r, s') \<Longrightarrow> db s' = db s"
  by (auto simp: scanForDeposits_def getLogs_def io_return_def io_bind_def io_catch_def
        await_ext_def split: option.splits if_splits list.splits)

lemma runDepositScanner_split:
  assumes "runDepositScanner env s = (r, s')"
  shows "db s' = db s \<or>
         (\<exists>ts sa n sb r'. db sa = db s \<and> processLoop env ts 0 sa = (Inr n, sb) \<and>
             processConfirmations env sb = (r', s'))"
proof -
  obtain r1 s1 where g: "getCurrentBlock env s = (r1, s1)" by (cases "getCurrentBlock env s")
  from getCurrentBlock_cases [OF g] have d1: "db s1 = db s" by simp
  obtain r2 s2 where l: "getLastScannedBlock env s1 = (r2, s2)"
    by (cases "getLastScannedBlock env s1")
  from getLastScannedBlock_cases [OF l] d1 have d2: "db s2 = db s" by simp
  show ?thesis
  proof (cases r1)
    case (Inl e)
    with assms g d1 show ?thesis by (simp add: runDepositScanner_def io_bind_def)
  next
    case (Inr cur)
    note c = this
    show ?thesis
    proof (cases r2)
      case (Inl e)
      with assms g c l d2 show ?thesis by (simp add: runDepositScanner_def io_bind_def)
    next
      case (Inr last)
      show ?thesis
      proof (cases "last + 1 \<ge> cur - 1")
        case True
        with assms g c l Inr d2 show ?thesis
          by (auto simp: runDepositScanner_def io_bind_def io_return_def Let_def)
      next
        case False
        obtain ts s3 where sc: "scanForDeposits env (last + 1) (cur - 1) s2 = (Inr ts, s3)"
          using scanForDeposits_total [of env "last + 1" "cur - 1" s2]
          by (cases "scanForDeposits env (last + 1) (cur - 1) s2") auto
        from scanForDeposits_db [OF sc] d2 have d3: "db s3 = db s" by simp
        obtain n s4 where pl: "processLoop env ts 0 s3 = (Inr n, s4)"
          using processLoop_total [of env ts 0 s3]
          by (cases "processLoop env ts 0 s3") auto
        obtain r5 s5 where pc: "processConfirmations env s4 = (r5, s5)"
          by (cases "processConfirmations env s4")
        from assms g c l Inr False sc pl pc have "s' = s5"
          by (auto simp: runDepositScanner_def io_bind_def io_return_def Let_def
                processDetectedTransfers_def split: sum.splits prod.splits)
        with d3 pl pc show ?thesis by blast
      qed
    qed
  qed
qed

lemma pending_row_found:
  assumes "wfIds d" and "p \<in> set (findManyPending d)"
  shows "findUniqueTx (tx_id p) d = Some p \<and> status p \<noteq> CREDITED"
proof -
  from assms(2) have pm: "p \<in> set (onchainTransaction d)"
    and ps: "status p = PENDING \<or> status p = CONFIRMING" by (auto simp: findManyPending_def)
  from assms(1) have dist: "distinct (map tx_id (onchainTransaction d))" by (simp add: wfIds_def)
  obtain x where x: "findUniqueTx (tx_id p) d = Some x"
    using pm by (cases "findUniqueTx (tx_id p) d") (auto simp: findUniqueTx_def find_None_iff)
  from distinct_ids_same [OF dist findUniqueTx_mem [OF x] pm findUniqueTx_id [OF x]]
  have "x = p" .
  with x ps show ?thesis by auto
qed

lemma pass_table:
  assumes r: "runDepositScanner env s = (r, s')"
  shows "(distinct (map txKey (onchainTransaction (db s))) \<longrightarrow>
            distinct (map txKey (onchainTransaction (db s')))) \<and>
         (wfIds (db s) \<longrightarrow>
            (\<forall>t \<in> set (onchainTransaction (db s)).
                status t \<noteq> PENDING \<and> status t \<noteq> CONFIRMING \<longrightarrow>
                t \<in> set (onchainTransaction (db s'))))"
  using runDepositScanner_split [OF r]
proof
  assume "db s' = db s"
  then show ?thesis by simp
next
  assume "\<exists>ts sa n sb r'. db sa = db s \<and> processLoop env ts 0 sa = (Inr n, sb) \<and>
             processConfirmations env sb = (r', s')"
  then obtain ts sa n sb r' where da: "db sa = db s"
    and pl: "processLoop env ts 0 sa = (Inr n, sb)"
    and pc: "processConfirmations env sb = (r', s')" by blast
  from processLoop_table [OF pl] da obtain new where
    app: "onchainTransaction (db sb) = onchainTransaction (db s) @ new"
    and dk: "distinct (map txKey (onchainTransaction (db s))) \<longrightarrow>
               distinct (map txKey (onchainTransaction (db sb)))"
    and wf: "wfIds (db s) \<longrightarrow> wfIds (db sb)" by auto
  note k = processConfirmations_rows [OF pc]
  have keys: "distinct (map txKey (onchainTransaction (db s))) \<longrightarrow>
            distinct (map txKey (onchainTransaction (db s')))"
    using dk rows_keys [OF k] by simp
  have settled: "wfIds (db s) \<longrightarrow>
            (\<forall>t \<in> set (onchainTransaction (db s)).
                status t \<noteq> PENDING \<and> status t \<noteq> CONFIRMING \<longrightarrow>
                t \<in> set (onchainTransaction (db s')))"
  proof (intro impI ballI)
    fix t assume w: "wfIds (db s)" and t: "t \<in> set (onchainTransaction (db s))"
      and st: "status t \<noteq> PENDING \<and> status t \<noteq> CONFIRMING"
    from w wf have "distinct (map tx_id (onchainTransaction (db sb)))" by (simp add: wfIds_def)
    from rows_settled_unchanged [OF k this]
    have u: "list_all2 (\<lambda>t t'. status t \<noteq> PENDING \<and> status t \<noteq> CONFIRMING \<longrightarrow> t' = t)
               (onchainTransaction (db sb)) (onchainTransaction (db s'))" .
    from t app have "t \<in> set (onchainTransaction (db sb))" by simp
    then obtain m where m: "m < length (onchainTransaction (db sb))"
      and tm: "onchainTransaction (db sb) ! m = t" by (auto simp: in_set_conv_nth)
    from u m have len: "length (onchainTransaction (db s')) = length (onchainTransaction (db sb))"
      and "status (onchainTransaction (db sb) ! m) \<noteq> PENDING \<and>
           status (onchainTransaction (db sb) ! m) \<noteq> CONFIRMING \<longrightarrow>
           onchainTransaction (db s') ! m = onchainTransaction (db sb) ! m"
      by (auto simp: list_all2_conv_all_nth)
    with tm st have "onchainTransaction (db s') ! m = t" by simp
    with m len show "t \<in> set (onchainTransaction (db s'))" by (metis nth_mem)
  qed
  from keys settled show ?thesis by simp
qed

lemma runDepositScanner_zero_work:
  assumes "faults s = []" and "onchainTransaction (db s) \<noteq> []"
    and "height env - 1 \<le> Max (blockNumber ` set (onchainTransaction (db s))) + 1"
  shows "runDepositScanner env s =
           (Inr \<lparr>scannedBlocks = 0, newDeposits = 0, updatedConfirmations = 0,
                  creditedDeposits = 0\<rparr>, s)"
  using assms
  by (simp add: runDepositScanner_def io_bind_def io_return_def getLastScannedBlock_nofault
        Let_def)

lemma runDepositScanner_scans:
  assumes nf: "faults s = []" and ne: "onchainTransaction (db s) \<noteq> []"
    and lt: "Max (blockNumber ` set (onchainTransaction (db s))) + 1 < height env - 1"
  shows "\<exists>st. fst (runDepositScanner env s) = Inr st \<and>
           scannedBlocks st =
             height env - 1 - (Max (blockNumber ` set (onchainTransaction (db s))) + 1) + 1"
proof -
  let ?last = "Max (blockNumber ` set (onchainTransaction (db s)))"
  obtain ts where sc: "scanForDeposits env (?last + 1) (height env - 1) s = (Inr ts, s)"
    using scanForDeposits_nofault [OF nf] by blast
  obtain n s2 where pl: "processLoop env ts 0 s = (Inr n, s2)" and f2: "faults s2 = []"
    using processLoop_nofault [OF nf] by blast
  obtain x where cl: "fst (confirmLoop env (findManyPending (db s2)) 0 0 s2) = Inr x"
    using confirmLoop_total by blast
  obtain a b where x: "x = (a, b)" by (cases x)
  obtain s3 where cl': "confirmLoop env (findManyPending (db s2)) 0 0 s2 = (Inr (a, b), s3)"
    using cl x by (cases "confirmLoop env (findManyPending (db s2)) 0 0 s2") auto
  from nf ne lt sc pl f2 cl' show ?thesis
    by (simp add: runDepositScanner_def io_bind_def io_return_def getLastScannedBlock_nofault
          Let_def processDetectedTransfers_def processConfirmations_def)
qed

section \<open>Claims\<close>







text \<open>
  C3. The claim has every pass retry the transfers that are already \<open>CONFIRMED\<close> and not
  yet credited. The source selects only \<open>PENDING\<close> and \<open>CONFIRMING\<close> rows: no
  \<open>CONFIRMED\<close> row is among the rows a pass works on, and a pass, whatever fails or not,
  leaves every \<open>CONFIRMED\<close> row exactly as it is (identifiers being unique). A pass over a
  transfer whose sender is unknown leaves it \<open>CONFIRMED\<close>; once the sender has registered,
  a later pass updates nothing, credits nothing and leaves the store as it was, although
  \<open>creditUserDeposit\<close> on that transfer would now apply.
\<close>

theorem confirmed_transfer_is_not_retried:
  "(wfIds (db s) \<and> t \<in> set (onchainTransaction (db s)) \<and> status t = CONFIRMED \<longrightarrow>
      t \<notin> set (findManyPending (db s)) \<and>
      t \<in> set (onchainTransaction (db (snd (runDepositScanner env s))))) \<and>
   map status (onchainTransaction (db (snd (runDepositScanner env1000 \<lparr>db = storeNoUser, faults = []\<rparr>))))
     = [CONFIRMED] \<and>
   runDepositScanner env1000 worldConfirmed =
     (Inr \<lparr>scannedBlocks = 14, newDeposits = 0, updatedConfirmations = 0, creditedDeposits = 0\<rparr>,
      worldConfirmed) \<and>
   fst (creditUserDeposit env1000 7 worldConfirmed) = Inr True"
proof -
  obtain r s' where run: "runDepositScanner env s = (r, s')" by (cases "runDepositScanner env s")
  have a: "wfIds (db s) \<and> t \<in> set (onchainTransaction (db s)) \<and> status t = CONFIRMED \<longrightarrow>
      t \<notin> set (findManyPending (db s)) \<and>
      t \<in> set (onchainTransaction (db (snd (runDepositScanner env s))))"
    using pass_table [OF run] run by (auto simp: findManyPending_def)
  have b: "map status (onchainTransaction (db (snd (runDepositScanner env1000 \<lparr>db = storeNoUser, faults = []\<rparr>))))
     = [CONFIRMED] \<and>
   runDepositScanner env1000 worldConfirmed =
     (Inr \<lparr>scannedBlocks = 14, newDeposits = 0, updatedConfirmations = 0, creditedDeposits = 0\<rparr>,
      worldConfirmed) \<and>
   fst (creditUserDeposit env1000 7 worldConfirmed) = Inr True"
    by code_simp
  from a b show ?thesis by blast
qed

theorem confirmed_transfer_is_not_retried_witness:
  "wfIds (db worldConfirmed) \<and> transferConfirmed \<in> set (onchainTransaction (db worldConfirmed)) \<and>
   status transferConfirmed = CONFIRMED \<and>
   resolveUser transferConfirmed (db worldConfirmed) = Some alice \<and>
   transferConfirmed \<notin> set (findManyPending (db worldConfirmed)) \<and>
   transferConfirmed \<in> set (onchainTransaction (db (snd (runDepositScanner env1000 worldConfirmed))))"
proof -
  have h: "wfIds (db worldConfirmed) \<and>
      transferConfirmed \<in> set (onchainTransaction (db worldConfirmed)) \<and>
      status transferConfirmed = CONFIRMED \<and>
      resolveUser transferConfirmed (db worldConfirmed) = Some alice"
    by code_simp
  from h confirmed_transfer_is_not_retried [of worldConfirmed transferConfirmed env1000]
  show ?thesis by blast
qed

text \<open>
  C4. The claim has no binary floating point between the decoded on-chain value and the
  balance. The source writes \<^verbatim>\<open>amount: parseFloat(transfer.amount)\<close>: the exact decimal
  that \<open>formatUnits\<close> prints is rounded to a binary64 number before it reaches the store.
  The on-chain values 8589934592000001 and 8589934592000002 (in units of \<open>10 ^ - 6\<close> USDT)
  are different amounts, both are rounded to the same binary64 number
  \<open>4503599627370497 / 2 ^ 19\<close>, which is neither of them, and whatever conversion the store
  applies to a number, the two recorded amounts are equal.
\<close>

theorem amount_passes_through_binary64:
  "formatUnits 8589934592000001 USDT_DECIMALS \<noteq> formatUnits 8589934592000002 USDT_DECIMALS \<and>
   parseFloat (formatUnits 8589934592000001 USDT_DECIMALS) = 4503599627370497 / 2 ^ 19 \<and>
   parseFloat (formatUnits 8589934592000002 USDT_DECIMALS) = 4503599627370497 / 2 ^ 19 \<and>
   parseFloat (formatUnits 8589934592000001 USDT_DECIMALS)
     \<noteq> formatUnits 8589934592000001 USDT_DECIMALS \<and>
   parseFloat (formatUnits 8589934592000002 USDT_DECIMALS)
     \<noteq> formatUnits 8589934592000002 USDT_DECIMALS \<and>
   map (\<lambda>t. (txHash t, amount t))
     (onchainTransaction (db (snd (runDepositScanner (envBig f) \<lparr>db = storeEmpty, faults = []\<rparr>))))
     = [(''0xc'', f (4503599627370497 / 2 ^ 19)), (''0xd'', f (4503599627370497 / 2 ^ 19))]"
proof -
  have v: "formatUnits 8589934592000001 USDT_DECIMALS \<noteq> formatUnits 8589934592000002 USDT_DECIMALS"
    by code_simp
  have p1: "parseFloat (formatUnits 8589934592000001 USDT_DECIMALS) = 4503599627370497 / 2 ^ 19"
    by code_simp
  have p2: "parseFloat (formatUnits 8589934592000002 USDT_DECIMALS) = 4503599627370497 / 2 ^ 19"
    by code_simp
  have n1: "parseFloat (formatUnits 8589934592000001 USDT_DECIMALS)
      \<noteq> formatUnits 8589934592000001 USDT_DECIMALS"
    by code_simp
  have n2: "parseFloat (formatUnits 8589934592000002 USDT_DECIMALS)
      \<noteq> formatUnits 8589934592000002 USDT_DECIMALS"
    by code_simp
  have r: "map (\<lambda>t. (txHash t, amount t))
     (onchainTransaction (db (snd (runDepositScanner (envBig f) \<lparr>db = storeEmpty, faults = []\<rparr>))))
     = [(''0xc'', f (parseFloat (formatUnits 8589934592000001 USDT_DECIMALS))),
        (''0xd'', f (parseFloat (formatUnits 8589934592000002 USDT_DECIMALS)))]"
    by code_simp
  from v p1 p2 n1 n2 r show ?thesis by (simp only: simp_thms)
qed

text \<open>
  C5, as amended. For every ObservedTransfer in state \<open>PENDING\<close> or \<open>CONFIRMING\<close>, one
  tracker pass in which no call fails (identifiers being unique) recomputes
  \<open>confirmations = currentHeight - sourceBlock\<close>, persists the count whether or not the
  status changes, and writes the status of the state machine: with fewer than 6
  confirmations the status stays as it is (a \<open>PENDING\<close> transfer stays \<open>PENDING\<close>, a
  \<open>CONFIRMING\<close> transfer is not moved back), with at least 6 and fewer than 12 it is
  \<open>CONFIRMING\<close>, with 12 or more it is \<open>CONFIRMED\<close>, which the crediting engine may turn
  into \<open>CREDITED\<close> in the same pass.
\<close>

theorem tracker_pass_applies_state_machine:
  "(faults s = [] \<and> distinct (map tx_id (onchainTransaction (db s))) \<and>
    t \<in> set (onchainTransaction (db s)) \<and> (status t = PENDING \<or> status t = CONFIRMING) \<longrightarrow>
      (\<exists>t' \<in> set (onchainTransaction (db (snd (processConfirmations env s)))). tx_id t' = tx_id t) \<and>
      (\<forall>t' \<in> set (onchainTransaction (db (snd (processConfirmations env s)))).
          tx_id t' = tx_id t \<longrightarrow> tracked env t t')) \<and>
   (c < 6 \<longrightarrow> newStatus old c = old) \<and>
   (6 \<le> c \<and> c < confirmationThreshold \<longrightarrow> newStatus old c = CONFIRMING) \<and>
   (confirmationThreshold \<le> c \<longrightarrow> newStatus old c = CONFIRMED) \<and>
   confirmationThreshold = 12"
  using processConfirmations_effect [of s t env] newStatus_cases [of c old]
  by blast

theorem tracker_pass_applies_state_machine_witness:
  "faults worldConfirming = [] \<and>
   distinct (map tx_id (onchainTransaction (db worldConfirming))) \<and>
   transferConfirming \<in> set (onchainTransaction (db worldConfirming)) \<and>
   status transferConfirming = CONFIRMING \<and>
   height env1000 - blockNumber transferConfirming = 5 \<and>
   newStatus CONFIRMING 5 = CONFIRMING \<and>
   (\<exists>t' \<in> set (onchainTransaction (db (snd (processConfirmations env1000 worldConfirming)))).
       tx_id t' = tx_id transferConfirming \<and> tracked env1000 transferConfirming t')"
proof -
  have h: "faults worldConfirming = [] \<and>
      distinct (map tx_id (onchainTransaction (db worldConfirming))) \<and>
      transferConfirming \<in> set (onchainTransaction (db worldConfirming)) \<and>
      status transferConfirming = CONFIRMING \<and>
      height env1000 - blockNumber transferConfirming = 5"
    by code_simp
  have c: "(5::int) < 6" by simp
  from h c
    tracker_pass_applies_state_machine [of worldConfirming transferConfirming env1000 5 CONFIRMING]
  show ?thesis by blast
qed

theorem confirming_below_six_counterexample:
  "findManyPending storeConfirming = [transferConfirming] \<and>
   height env1000 - blockNumber transferConfirming = 5 \<and>
   map (\<lambda>t. (status t, confirmations t))
     (onchainTransaction (db (snd (processConfirmations env1000 \<lparr>db = storeConfirming, faults = []\<rparr>))))
     = [(CONFIRMING, 5)]"
  by code_simp

text \<open>
  C6. Re-observation does not duplicate and does not credit again, under every schedule of
  failures. A pass keeps the natural keys \<open>(txHash, logIndex)\<close> of the transfer table
  pairwise distinct. Recording transfers whose keys are all in the table already creates
  no row, changes nothing in the store and counts zero new deposits. A transfer in state
  \<open>CREDITED\<close> is left exactly as it is by a pass (identifiers being unique and below the
  store's counter); the tracker selects no \<open>CREDITED\<close> row, the row that the crediting
  engine reads for a selected row is that row itself, and the engine invoked on a
  \<open>CREDITED\<close> transfer does not apply and changes nothing.
\<close>

theorem reobservation_is_idempotent:
  "(distinct (map txKey (onchainTransaction (db s))) \<longrightarrow>
      distinct (map txKey (onchainTransaction (db (snd (runDepositScanner env s)))))) \<and>
   ((\<forall>x \<in> set ts. detectedKey x \<in> txKey ` set (onchainTransaction (db s))) \<longrightarrow>
      fst (processDetectedTransfers env ts s) = Inr 0 \<and>
      db (snd (processDetectedTransfers env ts s)) = db s) \<and>
   (wfIds (db s) \<and> t \<in> set (onchainTransaction (db s)) \<and> status t = CREDITED \<longrightarrow>
      t \<in> set (onchainTransaction (db (snd (runDepositScanner env s))))) \<and>
   (wfIds (db s) \<and> p \<in> set (findManyPending (db s)) \<longrightarrow>
      findUniqueTx (tx_id p) (db s) = Some p \<and> status p \<noteq> CREDITED) \<and>
   (findUniqueTx i (db s) = Some tx \<and> status tx = CREDITED \<longrightarrow>
      fst (creditUserDeposit env i s) \<noteq> Inr True \<and> db (snd (creditUserDeposit env i s)) = db s)"
proof -
  obtain r s' where run: "runDepositScanner env s = (r, s')" by (cases "runDepositScanner env s")
  obtain r1 s1 where pd: "processLoop env ts 0 s = (r1, s1)" by (cases "processLoop env ts 0 s")
  obtain r2 s2 where cu: "creditUserDeposit env i s = (r2, s2)"
    by (cases "creditUserDeposit env i s")
  note pt = pass_table [OF run]
  have a: "distinct (map txKey (onchainTransaction (db s))) \<longrightarrow>
      distinct (map txKey (onchainTransaction (db (snd (runDepositScanner env s)))))"
    using pt run by simp
  have b: "(\<forall>x \<in> set ts. detectedKey x \<in> txKey ` set (onchainTransaction (db s))) \<longrightarrow>
      fst (processDetectedTransfers env ts s) = Inr 0 \<and>
      db (snd (processDetectedTransfers env ts s)) = db s"
    using processLoop_recorded [OF _ pd] pd by (simp add: processDetectedTransfers_def)
  have c: "wfIds (db s) \<and> t \<in> set (onchainTransaction (db s)) \<and> status t = CREDITED \<longrightarrow>
      t \<in> set (onchainTransaction (db (snd (runDepositScanner env s))))"
    using pt run by auto
  have d: "wfIds (db s) \<and> p \<in> set (findManyPending (db s)) \<longrightarrow>
      findUniqueTx (tx_id p) (db s) = Some p \<and> status p \<noteq> CREDITED"
    using pending_row_found [of "db s" p] by blast
  have e: "findUniqueTx i (db s) = Some tx \<and> status tx = CREDITED \<longrightarrow>
      fst (creditUserDeposit env i s) \<noteq> Inr True \<and> db (snd (creditUserDeposit env i s)) = db s"
    using creditUserDeposit_credited_noop [OF _ _ cu] cu by auto
  from a b c d e show ?thesis by blast
qed

theorem reobservation_is_idempotent_witness:
  "distinct (map txKey (onchainTransaction (db worldCredited))) \<and>
   detectedKey (toDetected log985) \<in> txKey ` set (onchainTransaction (db worldCredited)) \<and>
   wfIds (db worldCredited) \<and>
   transfer7Credited \<in> set (onchainTransaction (db worldCredited)) \<and>
   status transfer7Credited = CREDITED \<and>
   findUniqueTx 7 (db worldCredited) = Some transfer7Credited \<and>
   wfIds (db world0) \<and> transfer7 \<in> set (findManyPending (db world0)) \<and>
   distinct (map txKey (onchainTransaction (db (snd (runDepositScanner env1000 worldCredited))))) \<and>
   fst (processDetectedTransfers env1000 [toDetected log985] worldCredited) = Inr 0 \<and>
   db (snd (processDetectedTransfers env1000 [toDetected log985] worldCredited)) = db worldCredited \<and>
   transfer7Credited \<in> set (onchainTransaction (db (snd (runDepositScanner env1000 worldCredited)))) \<and>
   findUniqueTx (tx_id transfer7) (db world0) = Some transfer7 \<and>
   fst (creditUserDeposit env1000 7 worldCredited) \<noteq> Inr True \<and>
   db (snd (creditUserDeposit env1000 7 worldCredited)) = db worldCredited"
proof -
  have h1: "distinct (map txKey (onchainTransaction (db worldCredited)))" by code_simp
  have h2: "\<forall>x \<in> set [toDetected log985].
      detectedKey x \<in> txKey ` set (onchainTransaction (db worldCredited))" by code_simp
  have h3: "wfIds (db worldCredited) \<and>
      transfer7Credited \<in> set (onchainTransaction (db worldCredited)) \<and>
      status transfer7Credited = CREDITED \<and>
      findUniqueTx 7 (db worldCredited) = Some transfer7Credited" by code_simp
  have h4: "wfIds (db world0) \<and> transfer7 \<in> set (findManyPending (db world0))" by code_simp
  from h1 h2 h3
    reobservation_is_idempotent [of worldCredited env1000 "[toDetected log985]" transfer7Credited
      _ 7 transfer7Credited]
  have a: "distinct (map txKey (onchainTransaction (db (snd (runDepositScanner env1000 worldCredited))))) \<and>
   fst (processDetectedTransfers env1000 [toDetected log985] worldCredited) = Inr 0 \<and>
   db (snd (processDetectedTransfers env1000 [toDetected log985] worldCredited)) = db worldCredited \<and>
   transfer7Credited \<in> set (onchainTransaction (db (snd (runDepositScanner env1000 worldCredited)))) \<and>
   fst (creditUserDeposit env1000 7 worldCredited) \<noteq> Inr True \<and>
   db (snd (creditUserDeposit env1000 7 worldCredited)) = db worldCredited"
    by blast
  from h4 reobservation_is_idempotent [of world0 env1000 _ _ transfer7]
  have b: "findUniqueTx (tx_id transfer7) (db world0) = Some transfer7" by blast
  have h2': "detectedKey (toDetected log985) \<in> txKey ` set (onchainTransaction (db worldCredited))"
    using h2 by simp
  from h1 h2' h3 h4 a b show ?thesis by blast
qed




text \<open>
  C8. The pass computes \<open>fromBlock = lastScanned + 1\<close> and \<open>toBlock = currentBlock - 1\<close>,
  and the claim has it report a zero-work pass exactly when \<open>fromBlock > toBlock\<close>, a
  range of one block being scanned. The source tests \<open>fromBlock >= toBlock\<close>: when no call
  fails and the table has rows, the pass is a zero-work pass that leaves everything as it
  is whenever \<open>toBlock \<le> fromBlock\<close>, and it reports \<open>toBlock - fromBlock + 1\<close> scanned
  blocks when \<open>fromBlock < toBlock\<close>. With the newest row in block 998 and the chain at
  height 1000, \<open>fromBlock = toBlock = 999\<close>: the pass reports zero blocks, although
  scanning block 999 would have found a deposit to the treasury.
\<close>

theorem single_block_range_is_skipped:
  "(faults s = [] \<and> onchainTransaction (db s) \<noteq> [] \<and>
    height env - 1 \<le> Max (blockNumber ` set (onchainTransaction (db s))) + 1 \<longrightarrow>
      runDepositScanner env s =
        (Inr \<lparr>scannedBlocks = 0, newDeposits = 0, updatedConfirmations = 0,
               creditedDeposits = 0\<rparr>, s)) \<and>
   (faults s = [] \<and> onchainTransaction (db s) \<noteq> [] \<and>
    Max (blockNumber ` set (onchainTransaction (db s))) + 1 < height env - 1 \<longrightarrow>
      (\<exists>st. fst (runDepositScanner env s) = Inr st \<and>
         scannedBlocks st =
           height env - 1 - (Max (blockNumber ` set (onchainTransaction (db s))) + 1) + 1)) \<and>
   fst (getLastScannedBlock env999 world998) = Inr 998 \<and>
   height env999 = 1000 \<and>
   fst (scanForDeposits env999 999 999 world998) = Inr [toDetected log999]"
proof -
  have c: "fst (getLastScannedBlock env999 world998) = Inr 998 \<and>
     height env999 = 1000 \<and>
     fst (scanForDeposits env999 999 999 world998) = Inr [toDetected log999]"
    by code_simp
  from c runDepositScanner_zero_work [of s env] runDepositScanner_scans [of s env]
  show ?thesis by blast
qed

theorem single_block_range_is_skipped_witness:
  "faults world998 = [] \<and> onchainTransaction (db world998) \<noteq> [] \<and>
   Max (blockNumber ` set (onchainTransaction (db world998))) + 1 = 999 \<and>
   height env999 - 1 = 999 \<and>
   runDepositScanner env999 world998 =
     (Inr \<lparr>scannedBlocks = 0, newDeposits = 0, updatedConfirmations = 0, creditedDeposits = 0\<rparr>,
      world998)"
proof -
  have h: "faults world998 = [] \<and> onchainTransaction (db world998) \<noteq> [] \<and>
      height env999 - 1 = 999"
    by code_simp
  have m: "Max (blockNumber ` set (onchainTransaction (db world998))) + 1 = 999"
    by (simp add: world998_def store998_def transfer998_def)
  from h m single_block_range_is_skipped [of world998 env999]
  show ?thesis by simp
qed

text \<open>
  C9, as amended. When the treasury address is unset, empty or the placeholder (compared
  in lower case), \<open>scanForDeposits\<close> returns the empty list without calling the node and
  without touching the store, and the pass records no transfer: the table of
  ObservedTransfer rows keeps its rows, with their identifiers, natural keys and block
  numbers, and the statistics report zero new deposits. The pass is not a no-op: it still
  reads the chain height and runs the confirmation tracker and the crediting engine over
  the rows already recorded.
\<close>

theorem unconfigured_address_skips_detection_only:
  "\<not> addressConfigured env \<longrightarrow>
     scanForDeposits env a b s = (Inr [], s) \<and>
     map tx_id (onchainTransaction (db (snd (runDepositScanner env s))))
       = map tx_id (onchainTransaction (db s)) \<and>
     map txKey (onchainTransaction (db (snd (runDepositScanner env s))))
       = map txKey (onchainTransaction (db s)) \<and>
     map blockNumber (onchainTransaction (db (snd (runDepositScanner env s))))
       = map blockNumber (onchainTransaction (db s)) \<and>
     (\<forall>st. fst (runDepositScanner env s) = Inr st \<longrightarrow> newDeposits st = 0)"
proof
  assume u: "\<not> addressConfigured env"
  obtain r s' where p: "runDepositScanner env s = (r, s')" by (cases "runDepositScanner env s")
  note k = keepsRowsD [OF keepsRows_unconfigured_pass [OF u] p]
  have "scanForDeposits env a b s = (Inr [], s)"
    by (simp add: scanForDeposits_unconfigured [OF u] io_return_def)
  moreover have "\<forall>st. r = Inr st \<longrightarrow> newDeposits st = 0"
    using unconfigured_newDeposits [OF u] p by auto
  ultimately show "scanForDeposits env a b s = (Inr [], s) \<and>
     map tx_id (onchainTransaction (db (snd (runDepositScanner env s))))
       = map tx_id (onchainTransaction (db s)) \<and>
     map txKey (onchainTransaction (db (snd (runDepositScanner env s))))
       = map txKey (onchainTransaction (db s)) \<and>
     map blockNumber (onchainTransaction (db (snd (runDepositScanner env s))))
       = map blockNumber (onchainTransaction (db s)) \<and>
     (\<forall>st. fst (runDepositScanner env s) = Inr st \<longrightarrow> newDeposits st = 0)"
    using rows_ids [OF k] rows_keys [OF k] rows_blocks [OF k] p by simp
qed

theorem unconfigured_address_skips_detection_only_witness:
  "\<not> addressConfigured envUnset \<and> \<not> addressConfigured envPlaceholder \<and>
   scanForDeposits envPlaceholder 986 999 world0 = (Inr [], world0) \<and>
   map tx_id (onchainTransaction (db (snd (runDepositScanner envUnset world0)))) = [7] \<and>
   fst (runDepositScanner envUnset world0) =
     Inr \<lparr>scannedBlocks = 14, newDeposits = 0, updatedConfirmations = 1, creditedDeposits = 1\<rparr>"
proof -
  have h: "\<not> addressConfigured envUnset \<and> \<not> addressConfigured envPlaceholder"
    by code_simp
  have i: "map tx_id (onchainTransaction (db world0)) = [7]" by code_simp
  have f: "fst (runDepositScanner envUnset world0) =
     Inr \<lparr>scannedBlocks = 14, newDeposits = 0, updatedConfirmations = 1, creditedDeposits = 1\<rparr>"
    by code_simp
  from h i f unconfigured_address_skips_detection_only [of envUnset _ _ world0]
    unconfigured_address_skips_detection_only [of envPlaceholder 986 999 world0]
  show ?thesis by simp
qed

theorem unconfigured_pass_counterexample:
  "runDepositScanner envUnset \<lparr>db = store0, faults = []\<rparr> =
     runDepositScanner env1000 \<lparr>db = store0, faults = []\<rparr> \<and>
   runDepositScanner envPlaceholder \<lparr>db = store0, faults = []\<rparr> =
     runDepositScanner env1000 \<lparr>db = store0, faults = []\<rparr> \<and>
   fst (runDepositScanner envUnset \<lparr>db = store0, faults = []\<rparr>) =
     Inr \<lparr>scannedBlocks = 14, newDeposits = 0, updatedConfirmations = 1, creditedDeposits = 1\<rparr> \<and>
   map status (onchainTransaction (db (snd (runDepositScanner envUnset \<lparr>db = store0, faults = []\<rparr>))))
     = [CREDITED] \<and>
   map creditBalance (users (db (snd (runDepositScanner envUnset \<lparr>db = store0, faults = []\<rparr>))))
     = [15]"
  by code_simp

text \<open>
  C10, as amended. The errors raised while fetching the logs, while recording a detected
  transfer, while updating or crediting a row, and inside the crediting transaction are
  caught where they occur: \<open>scanForDeposits\<close>, \<open>processDetectedTransfers\<close>, the loop of
  \<open>processConfirmations\<close> and the atomic unit of \<open>creditUserDeposit\<close> return a value under
  every schedule of failures. \<open>processConfirmations\<close> raises only what its query for the
  pending rows raises. \<open>runDepositScanner\<close> returns its statistics whenever no call fails;
  what it raises is the failure of a read of the node or of the store that no component
  catches (the chain height, the last scanned block, the pending rows), and that failure
  reaches its caller.
\<close>

theorem scanner_error_containment:
  "(\<exists>x. fst (scanForDeposits env a b s) = Inr x) \<and>
   (\<exists>x. fst (processDetectedTransfers env ts s) = Inr x) \<and>
   (\<exists>x. fst (confirmLoop env txs k c s) = Inr x) \<and>
   (\<exists>x. fst (creditCommit env tx u s) = Inr x) \<and>
   (\<forall>e. fst (processConfirmations env s) = Inl e \<longrightarrow>
        fst (prismaRead findManyPending s) = Inl e) \<and>
   (\<forall>e. fst (runDepositScanner env s) = Inl e \<longrightarrow> e = RpcError \<or> e = DbError) \<and>
   (faults s = [] \<longrightarrow> (\<exists>st. fst (runDepositScanner env s) = Inr st))"
proof -
  obtain r s' where c: "creditCommit env tx u s = (r, s')" by (cases "creditCommit env tx u s")
  from creditCommit_cases [OF c] c have "\<exists>x. fst (creditCommit env tx u s) = Inr x" by auto
  moreover have "\<exists>x. fst (processDetectedTransfers env ts s) = Inr x"
    unfolding processDetectedTransfers_def by (rule processLoop_total)
  ultimately show ?thesis
    using scanForDeposits_total [of env a b s] confirmLoop_total [of env txs k c s]
      processConfirmations_raises [of env s] runDepositScanner_raises [of env s]
      runDepositScanner_nofault [of s env]
    by blast
qed

theorem scanner_error_containment_witness:
  "faults world0 = [] \<and> (\<exists>st. fst (runDepositScanner env1000 world0) = Inr st) \<and>
   fst (processConfirmations env1000 worldFail1) = Inl DbError \<and>
   fst (prismaRead findManyPending worldFail1) = Inl DbError \<and>
   fst (runDepositScanner env1000 worldFail1) = Inl RpcError"
proof -
  have h: "faults world0 = []" by code_simp
  have p: "fst (processConfirmations env1000 worldFail1) = Inl DbError" by code_simp
  have q: "fst (runDepositScanner env1000 worldFail1) = Inl RpcError" by code_simp
  from h p q scanner_error_containment [of env1000 _ _ world0]
    scanner_error_containment [of env1000 _ _ worldFail1]
  show ?thesis by blast
qed

theorem scanner_raises_counterexample:
  "fst (runDepositScanner env1000 \<lparr>db = store0, faults = [True]\<rparr>) = Inl RpcError \<and>
   fst (runDepositScanner env1000 \<lparr>db = store0, faults = [False, True]\<rparr>) = Inl DbError \<and>
   fst (runDepositScanner env1000 \<lparr>db = store0, faults = [False, False, False, True]\<rparr>) = Inl DbError"
  by code_simp

end
